theory Spec2Isabelle
  imports Main
begin

section \<open>The loading cache of cache.go\<close>

text \<open>
  Clock readings (\<open>time.Time\<close>, compared through \<open>Before\<close>) and durations
  (\<open>time.Duration\<close>) are counted in nanoseconds and modelled as unbounded integers;
  \<open>t.Add(d)\<close> is \<open>t + d\<close>. A duration may be negative, as in Go.
  Every call of \<open>time.Now()\<close> in the source is a parameter of the function that makes it,
  so that the two readings of \<open>Get\<close> (one inside \<open>Expired\<close>, one when the entry is stored,
  after the loader has returned) stay distinct.
\<close>

type_synonym time = int
type_synonym duration = int

record 'v CacheValue =
  Value :: 'v
  Expiration :: time

text \<open>\<open>Expired\<close>: \<open>this.Expiration.Before(time.Now())\<close>; \<open>now\<close> is that reading.\<close>

definition Expired :: "'v CacheValue \<Rightarrow> time \<Rightarrow> bool" where
  "Expired this now = (Expiration this < now)"

text \<open>
  The struct \<open>loadingCache\<close>. A \<open>*sync.Mutex\<close> is an address into \<open>mutexes\<close>, the heap
  of the mutexes allocated by \<open>getKeyLockFromMap\<close> (address = index, \<open>True\<close> = locked);
  \<open>lockMapLock\<close> is the state of the one registry mutex.
  The loader is a Go closure \<open>func(K) V\<close>: it may have effects and it may panic, so it
  maps a key and the state \<open>world\<close> it acts on to a panic value or a result, and a new
  state. \<open>calls\<close> is not a field of the source: it records the keys the loader was
  invoked with, in order.
\<close>

record ('k, 'v, 'p, 'w) loadingCache =
  dataMap :: "'k \<rightharpoonup> 'v CacheValue"
  lockMap :: "'k \<rightharpoonup> nat"
  lockMapLock :: bool
  mutexes :: "bool list"
  loadingFunc :: "'k \<Rightarrow> 'w \<Rightarrow> ('p + 'v) \<times> 'w"
  cacheDuration :: duration
  world :: 'w
  calls :: "'k list"

definition NewLoadingCache ::
  "('k \<Rightarrow> 'w \<Rightarrow> ('p + 'v) \<times> 'w) \<Rightarrow> duration \<Rightarrow> 'w \<Rightarrow> ('k, 'v, 'p, 'w) loadingCache" where
  "NewLoadingCache f d w =
     \<lparr>dataMap = Map.empty, lockMap = Map.empty, lockMapLock = False, mutexes = [],
      loadingFunc = f, cacheDuration = d, world = w, calls = []\<rparr>"

text \<open>
  How a call ends other than by returning: the loader's panic, passed on with its value,
  or a \<open>Lock()\<close> on a mutex that is held, which in a sequential run never returns.
\<close>

datatype 'p failure = Panic 'p | Blocked

text \<open>
  \<open>sync.Mutex.Lock\<close> and \<open>Unlock\<close> on the mutex at address \<open>m\<close>; \<open>None\<close>: the caller
  blocks. In the source every \<open>Unlock\<close> is deferred right after the \<open>Lock\<close> of the same
  mutex, so it is only reached by the goroutine that holds the mutex.
\<close>

definition mutex_Lock ::
  "nat \<Rightarrow> ('k, 'v, 'p, 'w) loadingCache \<Rightarrow> ('k, 'v, 'p, 'w) loadingCache option" where
  "mutex_Lock m l =
     (if m < length (mutexes l) \<and> \<not> mutexes l ! m
      then Some (l\<lparr>mutexes := (mutexes l)[m := True]\<rparr>) else None)"

definition mutex_Unlock ::
  "nat \<Rightarrow> ('k, 'v, 'p, 'w) loadingCache \<Rightarrow> ('k, 'v, 'p, 'w) loadingCache" where
  "mutex_Unlock m l = l\<lparr>mutexes := (mutexes l)[m := False]\<rparr>"

text \<open>
  \<open>getKeyLockFromMap\<close>: under the registry mutex (taken first, released by the deferred
  \<open>Unlock\<close>), return the key's mutex, allocating and registering a new one if there is none.
\<close>

definition lookupOrCreate ::
  "'k \<Rightarrow> ('k, 'v, 'p, 'w) loadingCache \<Rightarrow> nat \<times> ('k, 'v, 'p, 'w) loadingCache" where
  "lookupOrCreate key this =
     (case lockMap this key of
        Some lock \<Rightarrow> (lock, this)
      | None \<Rightarrow>
          (let newLock = length (mutexes this)
           in (newLock, this\<lparr>mutexes := mutexes this @ [False],
                               lockMap := (lockMap this)(key \<mapsto> newLock)\<rparr>)))"

definition getKeyLockFromMap ::
  "'k \<Rightarrow> ('k, 'v, 'p, 'w) loadingCache \<Rightarrow> nat option \<times> ('k, 'v, 'p, 'w) loadingCache" where
  "getKeyLockFromMap key this =
     (if lockMapLock this then (None, this)
      else (case lookupOrCreate key (this\<lparr>lockMapLock := True\<rparr>) of
              (lock, this') \<Rightarrow> (Some lock, this'\<lparr>lockMapLock := False\<rparr>)))"

text \<open>
  The branch of \<open>Get\<close> that loads: call the loader; if it panics nothing is stored; if it
  returns, store the value with the expiration \<open>time.Now().Add(l.cacheDuration)\<close>, where
  \<open>now\<close> is the clock read after the loader has returned.
\<close>

definition load ::
  "'k \<Rightarrow> time \<Rightarrow> ('k, 'v, 'p, 'w) loadingCache \<Rightarrow> ('p failure + 'v) \<times> ('k, 'v, 'p, 'w) loadingCache" where
  "load key now l =
     (case loadingFunc l key (world l) of
        (Inl p, w) \<Rightarrow> (Inl (Panic p), l\<lparr>world := w, calls := calls l @ [key]\<rparr>)
      | (Inr newValue, w) \<Rightarrow>
          (Inr newValue,
           l\<lparr>world := w, calls := calls l @ [key],
             dataMap := (dataMap l)(key \<mapsto> \<lparr>Value = newValue, Expiration = now + cacheDuration l\<rparr>)\<rparr>))"

text \<open>
  The part of \<open>Get\<close> that runs holding the key's mutex (lines 49 to 63). \<open>checked\<close> is the
  clock read by \<open>Expired\<close> (read only when the entry exists), \<open>stored\<close> the clock read when
  the loaded value is stored.
\<close>

definition Get_locked ::
  "'k \<Rightarrow> time \<Rightarrow> time \<Rightarrow> ('k, 'v, 'p, 'w) loadingCache \<Rightarrow> ('p failure + 'v) \<times> ('k, 'v, 'p, 'w) loadingCache" where
  "Get_locked key checked stored l =
     (case dataMap l key of
        None \<Rightarrow> load key stored l
      | Some value \<Rightarrow>
          if Expired value checked then load key stored l else (Inr (Value value), l))"

text \<open>\<open>Get\<close>: the deferred \<open>keyLock.Unlock()\<close> runs on return and on panic alike.\<close>

definition Get ::
  "'k \<Rightarrow> time \<Rightarrow> time \<Rightarrow> ('k, 'v, 'p, 'w) loadingCache \<Rightarrow> ('p failure + 'v) \<times> ('k, 'v, 'p, 'w) loadingCache" where
  "Get key checked stored l =
     (case getKeyLockFromMap key l of
        (None, l0) \<Rightarrow> (Inl Blocked, l0)
      | (Some keyLock, l1) \<Rightarrow>
          (case mutex_Lock keyLock l1 of
             None \<Rightarrow> (Inl Blocked, l1)
           | Some l2 \<Rightarrow>
               (case Get_locked key checked stored l2 of
                  (r, l3) \<Rightarrow> (r, mutex_Unlock keyLock l3))))"

text \<open>\<open>Put\<close>; \<open>now\<close> is its one clock reading.\<close>

definition Put ::
  "'k \<Rightarrow> 'v \<Rightarrow> time \<Rightarrow> ('k, 'v, 'p, 'w) loadingCache \<Rightarrow> ('p failure + unit) \<times> ('k, 'v, 'p, 'w) loadingCache" where
  "Put key value now l =
     (case getKeyLockFromMap key l of
        (None, l0) \<Rightarrow> (Inl Blocked, l0)
      | (Some keyLock, l1) \<Rightarrow>
          (case mutex_Lock keyLock l1 of
             None \<Rightarrow> (Inl Blocked, l1)
           | Some l2 \<Rightarrow>
               (Inr (),
                mutex_Unlock keyLock
                  (l2\<lparr>dataMap := (dataMap l2)(key \<mapsto> \<lparr>Value = value, Expiration = now + cacheDuration l2\<rparr>)\<rparr>))))"


subsection \<open>Sequences of calls\<close>

text \<open>
  One caller using the cache over its lifetime: a list of calls, each with the clock
  readings it takes. A call that panics leaves the cache usable, so the run goes on.
\<close>

datatype ('k, 'v) op = OpGet 'k time time | OpPut 'k 'v time

primrec op_key :: "('k, 'v) op \<Rightarrow> 'k" where
  "op_key (OpGet key checked stored) = key"
| "op_key (OpPut key v now) = key"

primrec apply_op ::
  "('k, 'v) op \<Rightarrow> ('k, 'v, 'p, 'w) loadingCache \<Rightarrow> ('k, 'v, 'p, 'w) loadingCache" where
  "apply_op (OpGet key checked stored) l = snd (Get key checked stored l)"
| "apply_op (OpPut key v now) l = snd (Put key v now l)"

primrec run ::
  "('k, 'v) op list \<Rightarrow> ('k, 'v, 'p, 'w) loadingCache \<Rightarrow> ('k, 'v, 'p, 'w) loadingCache" where
  "run [] l = l"
| "run (x # xs) l = run xs (apply_op x l)"

subsection \<open>Predicates used in the statements\<close>

text \<open>
  \<open>idle\<close>: no call is in progress, that is, the registry mutex and every key mutex are
  free, and every registered mutex has been allocated.
\<close>

definition idle :: "('k, 'v, 'p, 'w) loadingCache \<Rightarrow> bool" where
  "idle l \<longleftrightarrow>
     \<not> lockMapLock l \<and> (\<forall>b \<in> set (mutexes l). \<not> b) \<and>
     (\<forall>lock \<in> ran (lockMap l). lock < length (mutexes l))"

text \<open>\<open>stale\<close>: the condition of line 52, the key has no entry or an expired one.\<close>

definition stale :: "('k, 'v, 'p, 'w) loadingCache \<Rightarrow> 'k \<Rightarrow> time \<Rightarrow> bool" where
  "stale l key now = (case dataMap l key of None \<Rightarrow> True | Some e \<Rightarrow> Expired e now)"

text \<open>The cache after \<open>getKeyLockFromMap\<close> has run for a key.\<close>

definition register :: "'k \<Rightarrow> ('k, 'v, 'p, 'w) loadingCache \<Rightarrow> ('k, 'v, 'p, 'w) loadingCache" where
  "register key l = snd (lookupOrCreate key l)"

subsection \<open>Example caches\<close>

text \<open>
  The loader \<open>key -> key * 2\<close> of the scenario, counting its invocations in its state, and
  a loader that always panics; caches with a TTL of 100 and of 0.
\<close>

definition double_loader :: "int \<Rightarrow> nat \<Rightarrow> (string + int) \<times> nat" where
  "double_loader key w = (Inr (key * 2), Suc w)"

definition failing_loader :: "int \<Rightarrow> nat \<Rightarrow> (string + int) \<times> nat" where
  "failing_loader key w = (Inl ''boom'', Suc w)"

definition demo :: "(int, int, string, nat) loadingCache" where
  "demo = NewLoadingCache double_loader 100 0"

definition demo0 :: "(int, int, string, nat) loadingCache" where
  "demo0 = NewLoadingCache double_loader 0 0"

definition demoF :: "(int, int, string, nat) loadingCache" where
  "demoF = NewLoadingCache failing_loader 100 0"

section \<open>Concurrent callers\<close>

text \<open>
  Goroutines calling \<open>Get\<close> and \<open>Put\<close> on one cache at the same time. Each goroutine
  runs the statements of its call in order; the statements of different goroutines
  interleave in any order. A step is one statement of the source that touches shared
  state: a \<open>Lock\<close>, an \<open>Unlock\<close>, one map access, the loader call. The clock is one
  reading shared by all goroutines, and it only moves forward.

  For \<open>lockMap\<close> a step is atomic because of the registry mutex: the map is only
  touched under it. \<open>dataMap\<close> is one Go map, touched under the key's mutex. That orders
  the goroutines working on one key. Goroutines working on different keys reach the map
  under different mutexes: when one is about to write it (line 55 or 72) while another is
  about to read or write it (line 49, 55 or 72), the two accesses can overlap, and the Go
  runtime can end the program with a fatal error (\<open>concurrent map writes\<close>,
  \<open>concurrent map read and map write\<close>). That is the action \<open>Fatal i j\<close> below: it is
  possible in exactly such a state, it sets \<open>crashed\<close>, and no goroutine takes a step
  afterwards. What the store holds after overlapping accesses that the runtime lets pass
  is not known; the statements about the value store under concurrency are therefore
  made for goroutines working on one key, which never collide. The lookup of line 49 and the test of line 52 are one step, since the entry
  of a key cannot change while its mutex is held. The loader call is one step: what the
  loader does to its own state happens at once.
\<close>

datatype ('k, 'v) call = CallGet 'k | CallPut 'k 'v

primrec call_key :: "('k, 'v) call \<Rightarrow> 'k" where
  "call_key (CallGet key) = key"
| "call_key (CallPut key v) = key"

text \<open>How a call has ended: \<open>Get\<close> returned a value, \<open>Put\<close> returned, or the loader panicked.\<close>

datatype ('v, 'p) outcome = Returned 'v | Stored | Panicked 'p

text \<open>
  Where a goroutine stands in its call, with the locals it has by then:
  \<^item> \<open>AtStart\<close>: in \<open>getKeyLockFromMap\<close>, before \<open>this.lockMapLock.Lock()\<close> (line 83);
  \<^item> \<open>AtLookup\<close>: holding the registry mutex, before the lookup \<open>this.lockMap[key]\<close> (line 86);
  \<^item> \<open>AtCreate\<close>: nothing found, before \<open>newLock := &sync.Mutex{}\<close> (line 89);
  \<^item> \<open>AtInsert newLock\<close>: before \<open>this.lockMap[key] = newLock\<close> (line 90);
  \<^item> \<open>AtRelease lock\<close>: about to return \<open>lock\<close>, before the deferred \<open>lockMapLock.Unlock()\<close>;
  \<^item> \<open>AtLock keyLock\<close>: back in \<open>Get\<close> or \<open>Put\<close>, before \<open>keyLock.Lock()\<close> (lines 44, 68);
  \<^item> \<open>AtRead keyLock\<close>: holding the key's mutex, before line 49 of \<open>Get\<close> (the lookup
    and the test of line 52) or line 72 of \<open>Put\<close>;
  \<^item> \<open>AtLoad keyLock\<close>: before \<open>l.loadingFunc(key)\<close> (line 53);
  \<^item> \<open>AtStore keyLock newValue\<close>: before the store of line 55, which reads the clock;
  \<^item> \<open>AtUnlock keyLock r\<close>: leaving with outcome \<open>r\<close>, before the deferred \<open>keyLock.Unlock()\<close>;
  \<^item> \<open>Finished r\<close>: the call is over.
\<close>

datatype ('v, 'p) pc =
    AtStart
  | AtLookup
  | AtCreate
  | AtInsert nat
  | AtRelease nat
  | AtLock nat
  | AtRead nat
  | AtLoad nat
  | AtStore nat 'v
  | AtUnlock nat "('v, 'p) outcome"
  | Finished "('v, 'p) outcome"

text \<open>
  One step of a goroutine running the call \<open>c\<close>, at the clock reading \<open>now\<close>. A \<open>Lock()\<close>
  on a held mutex leaves the goroutine where it is.
\<close>

fun advance ::
  "time \<Rightarrow> ('k, 'v) call \<Rightarrow> ('v, 'p) pc \<Rightarrow> ('k, 'v, 'p, 'w) loadingCache \<Rightarrow>
   ('v, 'p) pc \<times> ('k, 'v, 'p, 'w) loadingCache" where
  "advance now c AtStart l =
     (if lockMapLock l then (AtStart, l) else (AtLookup, l\<lparr>lockMapLock := True\<rparr>))"
| "advance now c AtLookup l =
     (case lockMap l (call_key c) of Some lock \<Rightarrow> (AtRelease lock, l) | None \<Rightarrow> (AtCreate, l))"
| "advance now c AtCreate l =
     (AtInsert (length (mutexes l)), l\<lparr>mutexes := mutexes l @ [False]\<rparr>)"
| "advance now c (AtInsert newLock) l =
     (AtRelease newLock, l\<lparr>lockMap := (lockMap l)(call_key c \<mapsto> newLock)\<rparr>)"
| "advance now c (AtRelease lock) l = (AtLock lock, l\<lparr>lockMapLock := False\<rparr>)"
| "advance now c (AtLock keyLock) l =
     (case mutex_Lock keyLock l of None \<Rightarrow> (AtLock keyLock, l) | Some l' \<Rightarrow> (AtRead keyLock, l'))"
| "advance now c (AtRead keyLock) l =
     (case c of
        CallGet key \<Rightarrow>
          (case dataMap l key of
             None \<Rightarrow> (AtLoad keyLock, l)
           | Some value \<Rightarrow>
               if Expired value now then (AtLoad keyLock, l)
               else (AtUnlock keyLock (Returned (Value value)), l))
      | CallPut key v \<Rightarrow>
          (AtUnlock keyLock Stored,
           l\<lparr>dataMap := (dataMap l)(key \<mapsto> \<lparr>Value = v, Expiration = now + cacheDuration l\<rparr>)\<rparr>))"
| "advance now c (AtLoad keyLock) l =
     (case loadingFunc l (call_key c) (world l) of
        (Inl p, w) \<Rightarrow>
          (AtUnlock keyLock (Panicked p), l\<lparr>world := w, calls := calls l @ [call_key c]\<rparr>)
      | (Inr newValue, w) \<Rightarrow>
          (AtStore keyLock newValue, l\<lparr>world := w, calls := calls l @ [call_key c]\<rparr>))"
| "advance now c (AtStore keyLock newValue) l =
     (AtUnlock keyLock (Returned newValue),
      l\<lparr>dataMap := (dataMap l)(call_key c \<mapsto>
          \<lparr>Value = newValue, Expiration = now + cacheDuration l\<rparr>)\<rparr>)"
| "advance now c (AtUnlock keyLock r) l = (Finished r, mutex_Unlock keyLock l)"
| "advance now c (Finished r) l = (Finished r, l)"

text \<open>
  The cache, the clock and the goroutines, by number, and whether the runtime has ended
  the program with a fatal error.
\<close>

record ('k, 'v, 'p, 'w) system =
  shared :: "('k, 'v, 'p, 'w) loadingCache"
  clock :: time
  goroutines :: "nat \<rightharpoonup> ('k, 'v) call \<times> ('v, 'p) pc"
  crashed :: bool

text \<open>
  The next statement of a goroutine accesses \<open>dataMap\<close> (lines 49, 55, 72), and it
  writes it (lines 55, 72). Two goroutines collide when the first is about to write the
  map and the second is about to access it.
\<close>

primrec touches_store :: "('v, 'p) pc \<Rightarrow> bool" where
  "touches_store AtStart = False"
| "touches_store AtLookup = False"
| "touches_store AtCreate = False"
| "touches_store (AtInsert n) = False"
| "touches_store (AtRelease n) = False"
| "touches_store (AtLock n) = False"
| "touches_store (AtRead n) = True"
| "touches_store (AtLoad n) = False"
| "touches_store (AtStore n v) = True"
| "touches_store (AtUnlock n r) = False"
| "touches_store (Finished r) = False"

primrec writes_store :: "('k, 'v) call \<Rightarrow> ('v, 'p) pc \<Rightarrow> bool" where
  "writes_store c AtStart = False"
| "writes_store c AtLookup = False"
| "writes_store c AtCreate = False"
| "writes_store c (AtInsert n) = False"
| "writes_store c (AtRelease n) = False"
| "writes_store c (AtLock n) = False"
| "writes_store c (AtRead n) = (case c of CallGet key \<Rightarrow> False | CallPut key v \<Rightarrow> True)"
| "writes_store c (AtLoad n) = False"
| "writes_store c (AtStore n v) = True"
| "writes_store c (AtUnlock n r) = False"
| "writes_store c (Finished r) = False"

definition collide :: "('k, 'v, 'p, 'w) system \<Rightarrow> nat \<Rightarrow> nat \<Rightarrow> bool" where
  "collide s i j \<longleftrightarrow>
     i \<noteq> j \<and>
     (case goroutines s i of None \<Rightarrow> False | Some (c, pc) \<Rightarrow> writes_store c pc) \<and>
     (case goroutines s j of None \<Rightarrow> False | Some (d, q) \<Rightarrow> touches_store q)"

text \<open>
  A schedule is a list of actions: goroutine \<open>i\<close> takes its next step (\<open>proceed\<close>), if
  the program is still running; time passes; or the runtime ends the program because
  goroutines \<open>i\<close> and \<open>j\<close> collide. \<open>spawn\<close> starts one goroutine per call on a cache,
  at a clock reading.
\<close>

datatype action = Step nat | Tick nat | Fatal nat nat

definition proceed :: "nat \<Rightarrow> ('k, 'v, 'p, 'w) system \<Rightarrow> ('k, 'v, 'p, 'w) system" where
  "proceed i s =
     (case goroutines s i of
        None \<Rightarrow> s
      | Some (c, pc) \<Rightarrow>
          (case advance (clock s) c pc (shared s) of
             (pc', l') \<Rightarrow> s\<lparr>shared := l', goroutines := (goroutines s)(i \<mapsto> (c, pc'))\<rparr>))"

primrec perform :: "action \<Rightarrow> ('k, 'v, 'p, 'w) system \<Rightarrow> ('k, 'v, 'p, 'w) system" where
  "perform (Step i) s = (if crashed s then s else proceed i s)"
| "perform (Tick d) s = s\<lparr>clock := clock s + int d\<rparr>"
| "perform (Fatal i j) s = (if collide s i j then s\<lparr>crashed := True\<rparr> else s)"

primrec execute :: "action list \<Rightarrow> ('k, 'v, 'p, 'w) system \<Rightarrow> ('k, 'v, 'p, 'w) system" where
  "execute [] s = s"
| "execute (a # as) s = execute as (perform a s)"

definition spawn ::
  "('k, 'v, 'p, 'w) loadingCache \<Rightarrow> time \<Rightarrow> ('k, 'v) call list \<Rightarrow> ('k, 'v, 'p, 'w) system" where
  "spawn l now cs =
     \<lparr>shared = l, clock = now,
      goroutines = (\<lambda>i. if i < length cs then Some (cs ! i, AtStart) else None),
      crashed = False\<rparr>"

text \<open>
  One goroutine on its own, and the outcome of the sequential \<open>Get\<close> as the goroutine
  reports it (a call that blocks has none).
\<close>

primrec outcome_of :: "'p failure + 'v \<Rightarrow> ('v, 'p) outcome option" where
  "outcome_of (Inr v) = Some (Returned v)"
| "outcome_of (Inl e) = (case e of Panic p \<Rightarrow> Some (Panicked p) | Blocked \<Rightarrow> None)"

definition alone ::
  "('k, 'v) call \<Rightarrow> ('v, 'p) pc \<Rightarrow> time \<Rightarrow> ('k, 'v, 'p, 'w) loadingCache \<Rightarrow> ('k, 'v, 'p, 'w) system" where
  "alone c pc now l =
     \<lparr>shared = l, clock = now, goroutines = [0 \<mapsto> (c, pc)], crashed = False\<rparr>"

subsection \<open>What a goroutine holds\<close>

text \<open>
  Whether a goroutine is inside the registry mutex, which mutex \<open>getKeyLockFromMap\<close> has
  given it, and which key mutex it holds.
\<close>

primrec in_registry :: "('v, 'p) pc \<Rightarrow> bool" where
  "in_registry AtStart = False"
| "in_registry AtLookup = True"
| "in_registry AtCreate = True"
| "in_registry (AtInsert n) = True"
| "in_registry (AtRelease n) = True"
| "in_registry (AtLock n) = False"
| "in_registry (AtRead n) = False"
| "in_registry (AtLoad n) = False"
| "in_registry (AtStore n v) = False"
| "in_registry (AtUnlock n r) = False"
| "in_registry (Finished r) = False"

primrec obtained :: "('v, 'p) pc \<Rightarrow> nat option" where
  "obtained AtStart = None"
| "obtained AtLookup = None"
| "obtained AtCreate = None"
| "obtained (AtInsert n) = None"
| "obtained (AtRelease n) = Some n"
| "obtained (AtLock n) = Some n"
| "obtained (AtRead n) = Some n"
| "obtained (AtLoad n) = Some n"
| "obtained (AtStore n v) = Some n"
| "obtained (AtUnlock n r) = Some n"
| "obtained (Finished r) = None"

primrec holds :: "('v, 'p) pc \<Rightarrow> nat option" where
  "holds AtStart = None"
| "holds AtLookup = None"
| "holds AtCreate = None"
| "holds (AtInsert n) = None"
| "holds (AtRelease n) = None"
| "holds (AtLock n) = None"
| "holds (AtRead n) = Some n"
| "holds (AtLoad n) = Some n"
| "holds (AtStore n v) = Some n"
| "holds (AtUnlock n r) = Some n"
| "holds (Finished r) = None"

text \<open>
  What the registry says about the key of a goroutine at a point of its call: no entry
  while it is creating one, the mutex it was given afterwards.
\<close>

primrec lock_known :: "('k, 'v, 'p, 'w) loadingCache \<Rightarrow> 'k \<Rightarrow> ('v, 'p) pc \<Rightarrow> bool" where
  "lock_known l key AtStart = True"
| "lock_known l key AtLookup = True"
| "lock_known l key AtCreate = (lockMap l key = None)"
| "lock_known l key (AtInsert n) = (lockMap l key = None \<and> n < length (mutexes l))"
| "lock_known l key (AtRelease n) = (lockMap l key = Some n)"
| "lock_known l key (AtLock n) = (lockMap l key = Some n)"
| "lock_known l key (AtRead n) = (lockMap l key = Some n)"
| "lock_known l key (AtLoad n) = (lockMap l key = Some n)"
| "lock_known l key (AtStore n v) = (lockMap l key = Some n)"
| "lock_known l key (AtUnlock n r) = (lockMap l key = Some n)"
| "lock_known l key (Finished r) = True"

definition in_registry_set :: "('k, 'v, 'p, 'w) system \<Rightarrow> nat set" where
  "in_registry_set s = {i. \<exists>c pc. goroutines s i = Some (c, pc) \<and> in_registry pc}"

definition holders :: "('k, 'v, 'p, 'w) system \<Rightarrow> nat \<Rightarrow> nat set" where
  "holders s n = {i. \<exists>c pc. goroutines s i = Some (c, pc) \<and> holds pc = Some n}"

text \<open>
  The lock discipline: at most one goroutine is inside the registry mutex, and the mutex
  is locked exactly when one is; every goroutine's view of the registry is right and
  every registered mutex is allocated; at most one goroutine holds a given key mutex,
  and the mutex is locked exactly when one does.
\<close>

definition registry_exclusive :: "('k, 'v, 'p, 'w) system \<Rightarrow> bool" where
  "registry_exclusive s \<longleftrightarrow>
     (\<forall>i \<in> in_registry_set s. \<forall>j \<in> in_registry_set s. i = j) \<and>
     (lockMapLock (shared s) \<longleftrightarrow> in_registry_set s \<noteq> {})"

definition registry_agrees :: "('k, 'v, 'p, 'w) system \<Rightarrow> bool" where
  "registry_agrees s \<longleftrightarrow>
     (\<forall>i c pc. goroutines s i = Some (c, pc) \<longrightarrow> lock_known (shared s) (call_key c) pc) \<and>
     (\<forall>k n. lockMap (shared s) k = Some n \<longrightarrow> n < length (mutexes (shared s)))"

definition mutex_exclusive :: "('k, 'v, 'p, 'w) system \<Rightarrow> bool" where
  "mutex_exclusive s \<longleftrightarrow>
     (\<forall>n. (\<forall>i \<in> holders s n. \<forall>j \<in> holders s n. i = j) \<and>
        (n < length (mutexes (shared s)) \<longrightarrow> (mutexes (shared s) ! n \<longleftrightarrow> holders s n \<noteq> {})))"

definition consistent :: "('k, 'v, 'p, 'w) system \<Rightarrow> bool" where
  "consistent s \<longleftrightarrow> registry_exclusive s \<and> registry_agrees s \<and> mutex_exclusive s"

text \<open>All goroutines work on one key.\<close>

definition one_key :: "'k \<Rightarrow> ('k, 'v, 'p, 'w) system \<Rightarrow> bool" where
  "one_key key s \<longleftrightarrow> (\<forall>i c pc. goroutines s i = Some (c, pc) \<longrightarrow> call_key c = key)"

subsection \<open>Concurrent \<open>Get\<close> calls for one key\<close>

text \<open>
  The three stages of a group of \<open>Get\<close> calls for one key that starts from the cache
  \<open>l0\<close>: the loader has not been called (every goroutine is \<open>waiting\<close>); it has been
  called once, returned \<open>v\<close>, and its caller is about to store (every other goroutine is
  \<open>outside\<close> the key's mutex); the value is stored with an expiration of at least
  \<open>bound\<close>, and every goroutine that is leaving or has left returns \<open>v\<close> (\<open>served\<close>).
  \<open>single_flight\<close>: the group is in one of the three stages, in a state that respects
  the lock discipline and where the program is running.
\<close>

primrec waiting :: "('v, 'p) pc \<Rightarrow> bool" where
  "waiting AtStart = True"
| "waiting AtLookup = True"
| "waiting AtCreate = True"
| "waiting (AtInsert n) = True"
| "waiting (AtRelease n) = True"
| "waiting (AtLock n) = True"
| "waiting (AtRead n) = True"
| "waiting (AtLoad n) = True"
| "waiting (AtStore n v) = False"
| "waiting (AtUnlock n r) = False"
| "waiting (Finished r) = False"

primrec outside :: "('v, 'p) pc \<Rightarrow> bool" where
  "outside AtStart = True"
| "outside AtLookup = True"
| "outside AtCreate = True"
| "outside (AtInsert n) = True"
| "outside (AtRelease n) = True"
| "outside (AtLock n) = True"
| "outside (AtRead n) = False"
| "outside (AtLoad n) = False"
| "outside (AtStore n v) = False"
| "outside (AtUnlock n r) = False"
| "outside (Finished r) = False"

primrec served :: "'v \<Rightarrow> ('v, 'p) pc \<Rightarrow> bool" where
  "served v AtStart = True"
| "served v AtLookup = True"
| "served v AtCreate = True"
| "served v (AtInsert n) = True"
| "served v (AtRelease n) = True"
| "served v (AtLock n) = True"
| "served v (AtRead n) = True"
| "served v (AtLoad n) = False"
| "served v (AtStore n x) = False"
| "served v (AtUnlock n r) = (r = Returned v)"
| "served v (Finished r) = (r = Returned v)"

definition all_get :: "'k \<Rightarrow> ('k, 'v, 'p, 'w) system \<Rightarrow> bool" where
  "all_get key s \<longleftrightarrow> (\<forall>i c pc. goroutines s i = Some (c, pc) \<longrightarrow> c = CallGet key)"

definition same_config :: "('k, 'v, 'p, 'w) loadingCache \<Rightarrow> ('k, 'v, 'p, 'w) system \<Rightarrow> bool" where
  "same_config l0 s \<longleftrightarrow>
     loadingFunc (shared s) = loadingFunc l0 \<and> cacheDuration (shared s) = cacheDuration l0"

definition not_loaded :: "('k, 'v, 'p, 'w) loadingCache \<Rightarrow> 'k \<Rightarrow> ('k, 'v, 'p, 'w) system \<Rightarrow> bool" where
  "not_loaded l0 key s \<longleftrightarrow>
     calls (shared s) = calls l0 \<and> world (shared s) = world l0 \<and>
     dataMap (shared s) key = dataMap l0 key \<and>
     (\<forall>i c pc. goroutines s i = Some (c, pc) \<longrightarrow> waiting pc)"

definition loading ::
  "('k, 'v, 'p, 'w) loadingCache \<Rightarrow> 'k \<Rightarrow> 'v \<Rightarrow> 'w \<Rightarrow> ('k, 'v, 'p, 'w) system \<Rightarrow> bool" where
  "loading l0 key v w s \<longleftrightarrow>
     calls (shared s) = calls l0 @ [key] \<and> world (shared s) = w \<and>
     dataMap (shared s) key = dataMap l0 key \<and>
     (\<exists>i c n. goroutines s i = Some (c, AtStore n v)) \<and>
     (\<forall>i c pc. goroutines s i = Some (c, pc) \<longrightarrow> outside pc \<or> (\<exists>n. pc = AtStore n v))"

definition loaded ::
  "('k, 'v, 'p, 'w) loadingCache \<Rightarrow> 'k \<Rightarrow> 'v \<Rightarrow> 'w \<Rightarrow> time \<Rightarrow> ('k, 'v, 'p, 'w) system \<Rightarrow> bool" where
  "loaded l0 key v w bound s \<longleftrightarrow>
     calls (shared s) = calls l0 @ [key] \<and> world (shared s) = w \<and>
     (\<exists>e. dataMap (shared s) key = Some \<lparr>Value = v, Expiration = e\<rparr> \<and> bound \<le> e) \<and>
     (\<forall>i c pc. goroutines s i = Some (c, pc) \<longrightarrow> served v pc)"

definition single_flight ::
  "('k, 'v, 'p, 'w) loadingCache \<Rightarrow> 'k \<Rightarrow> 'v \<Rightarrow> 'w \<Rightarrow> time \<Rightarrow> ('k, 'v, 'p, 'w) system \<Rightarrow> bool" where
  "single_flight l0 key v w t0 s \<longleftrightarrow>
     consistent s \<and> all_get key s \<and> same_config l0 s \<and> \<not> crashed s \<and> t0 \<le> clock s \<and>
     (not_loaded l0 key s \<or> loading l0 key v w s \<or>
      loaded l0 key v w (t0 + cacheDuration l0) s)"

text \<open>
  A schedule is \<open>timely\<close> for a group of \<open>Get\<close> calls for one key that starts from the
  cache \<open>l0\<close> when every lookup (line 49, with the test of line 52) that a goroutine makes
  after the loader has been called finds an entry that is not expired at the clock
  reading of that lookup. \<open>on_time\<close> is that condition for one action, in the state where
  it is taken.
\<close>

primrec at_read :: "('v, 'p) pc \<Rightarrow> bool" where
  "at_read AtStart = False"
| "at_read AtLookup = False"
| "at_read AtCreate = False"
| "at_read (AtInsert n) = False"
| "at_read (AtRelease n) = False"
| "at_read (AtLock n) = False"
| "at_read (AtRead n) = True"
| "at_read (AtLoad n) = False"
| "at_read (AtStore n v) = False"
| "at_read (AtUnlock n r) = False"
| "at_read (Finished r) = False"

definition on_time ::
  "('k, 'v, 'p, 'w) loadingCache \<Rightarrow> 'k \<Rightarrow> action \<Rightarrow> ('k, 'v, 'p, 'w) system \<Rightarrow> bool" where
  "on_time l0 key a s =
     (case a of
        Step i \<Rightarrow>
          (case goroutines s i of
             None \<Rightarrow> True
           | Some (c, pc) \<Rightarrow>
               at_read pc \<longrightarrow>
               calls (shared s) = calls l0 \<or> \<not> stale (shared s) key (clock s))
      | Tick d \<Rightarrow> True
      | Fatal i j \<Rightarrow> True)"

primrec timely ::
  "('k, 'v, 'p, 'w) loadingCache \<Rightarrow> 'k \<Rightarrow> action list \<Rightarrow> ('k, 'v, 'p, 'w) system \<Rightarrow> bool" where
  "timely l0 key [] s = True"
| "timely l0 key (a # as) s = (on_time l0 key a s \<and> timely l0 key as (perform a s))"

primrec is_step :: "action \<Rightarrow> bool" where
  "is_step (Step i) = True"
| "is_step (Tick d) = False"
| "is_step (Fatal i j) = False"

text \<open>The steps a goroutine has left at most, for the argument that every call ends.\<close>

primrec rank :: "('v, 'p) pc \<Rightarrow> nat" where
  "rank AtStart = 10"
| "rank AtLookup = 9"
| "rank AtCreate = 8"
| "rank (AtInsert n) = 7"
| "rank (AtRelease n) = 6"
| "rank (AtLock n) = 5"
| "rank (AtRead n) = 4"
| "rank (AtLoad n) = 3"
| "rank (AtStore n v) = 2"
| "rank (AtUnlock n r) = 1"
| "rank (Finished r) = 0"

definition rank_at :: "('k, 'v, 'p, 'w) system \<Rightarrow> nat \<Rightarrow> nat" where
  "rank_at s i = (case goroutines s i of None \<Rightarrow> 0 | Some (c, pc) \<Rightarrow> rank pc)"

definition remaining :: "nat \<Rightarrow> ('k, 'v, 'p, 'w) system \<Rightarrow> nat" where
  "remaining n s = (\<Sum>i<n. rank_at s i)"

definition population :: "nat \<Rightarrow> ('k, 'v, 'p, 'w) system \<Rightarrow> bool" where
  "population n s \<longleftrightarrow> (\<forall>i. goroutines s i \<noteq> None \<longleftrightarrow> i < n)"

subsection \<open>Example runs\<close>

text \<open>
  A loader whose value depends on how often it has been called, a cache with TTL 0, and
  schedules for two goroutines: \<open>contend\<close> takes goroutine 0 into the key's mutex and
  goroutine 1 up to the \<open>Lock()\<close> it blocks on; \<open>finish\<close> lets goroutine 0 finish, lets
  one unit of time pass, and lets goroutine 1 finish; \<open>slow_load\<close> lets goroutine 0 look
  the key up and call the loader, lets 500 units of time pass before it stores, and then
  lets both goroutines finish. \<open>registry_race\<close> has both goroutines call
  \<open>getKeyLockFromMap\<close> for a key seen for the first time.
\<close>

definition counting_loader :: "int \<Rightarrow> nat \<Rightarrow> (string + int) \<times> nat" where
  "counting_loader key w = (Inr (key * 2 + int w), Suc w)"

definition race_cache :: "(int, int, string, nat) loadingCache" where
  "race_cache = NewLoadingCache counting_loader 0 0"

definition contend :: "action list" where
  "contend =
     [Step 0, Step 0, Step 0, Step 0, Step 0, Step 0,
      Step 1, Step 1, Step 1, Step 1]"

definition finish :: "action list" where
  "finish =
     [Step 0, Step 0, Step 0, Step 0,
      Tick 1,
      Step 1, Step 1, Step 1, Step 1, Step 1]"

definition slow_load :: "action list" where
  "slow_load =
     [Step 0, Step 0,
      Tick 500,
      Step 0, Step 0,
      Step 1, Step 1, Step 1]"

definition registry_race :: "action list" where
  "registry_race = [Step 0, Step 1, Step 0, Step 0, Step 0, Step 0, Step 1, Step 1, Step 1]"

text \<open>
  \<open>two_keys\<close> takes goroutine 0 and then goroutine 1, each working on a key of its own
  seen for the first time, up to its access to \<open>dataMap\<close>.
\<close>

definition two_keys :: "action list" where
  "two_keys =
     [Step 0, Step 0, Step 0, Step 0, Step 0, Step 0,
      Step 1, Step 1, Step 1, Step 1, Step 1, Step 1]"

section \<open>Sequential behaviour\<close>

subsection \<open>A call on an idle cache\<close>

lemma idle_NewLoadingCache: "idle (NewLoadingCache f d w)"
  by (simp add: idle_def NewLoadingCache_def)

lemma getKeyLockFromMap_idle:
  assumes "idle l"
  shows "getKeyLockFromMap key l = (Some (fst (lookupOrCreate key l)), register key l)"
  using assms
  by (cases "lockMap l key")
     (simp_all add: idle_def getKeyLockFromMap_def lookupOrCreate_def register_def Let_def)

lemma idle_register: "idle l \<Longrightarrow> idle (register key l)"
  by (cases "lockMap l key")
     (auto simp: idle_def register_def lookupOrCreate_def Let_def ran_def less_Suc_eq
        split: if_splits)

lemma register_lock:
  "idle l \<Longrightarrow>
   lockMap (register key l) key = Some (fst (lookupOrCreate key l)) \<and>
   fst (lookupOrCreate key l) < length (mutexes (register key l))"
  by (cases "lockMap l key")
     (auto simp: idle_def register_def lookupOrCreate_def Let_def ran_def)

lemma register_fields [simp]:
  "dataMap (register key l) = dataMap l"
  "loadingFunc (register key l) = loadingFunc l"
  "cacheDuration (register key l) = cacheDuration l"
  "world (register key l) = world l"
  "calls (register key l) = calls l"
  "lockMapLock (register key l) = lockMapLock l"
  by (simp_all add: register_def lookupOrCreate_def Let_def split: option.splits)

lemma register_known: "lockMap l key = Some lock \<Longrightarrow> register key l = l"
  by (simp add: register_def lookupOrCreate_def)

lemma register_new:
  "lockMap l key = None \<Longrightarrow>
   register key l =
     l\<lparr>mutexes := mutexes l @ [False], lockMap := (lockMap l)(key \<mapsto> length (mutexes l))\<rparr>"
  by (simp add: register_def lookupOrCreate_def Let_def)

lemma idle_fields [simp]:
  "idle (l\<lparr>dataMap := m\<rparr>) = idle l"
  "idle (l\<lparr>world := w\<rparr>) = idle l"
  "idle (l\<lparr>calls := cs\<rparr>) = idle l"
  by (simp_all add: idle_def)

lemma key_mutex_free:
  assumes "idle l"
  shows "mutex_Lock (fst (lookupOrCreate key l)) (register key l) =
           Some ((register key l)\<lparr>mutexes :=
             (mutexes (register key l))[fst (lookupOrCreate key l) := True]\<rparr>)"
    and "(mutexes (register key l))[fst (lookupOrCreate key l) := False] = mutexes (register key l)"
proof -
  let ?n = "fst (lookupOrCreate key l)" and ?r = "register key l"
  have n: "?n < length (mutexes ?r)" using register_lock [OF assms] by simp
  have f: "\<not> mutexes ?r ! ?n"
    using idle_register [OF assms, of key] n by (auto simp: idle_def dest: nth_mem)
  show "mutex_Lock ?n ?r = Some (?r\<lparr>mutexes := (mutexes ?r)[?n := True]\<rparr>)"
    using n f by (simp add: mutex_Lock_def)
  show "(mutexes ?r)[?n := False] = mutexes ?r"
    using f by (metis list_update_id)
qed

lemma Get_locked_mutexes: "mutexes (snd (Get_locked key checked stored l)) = mutexes l"
  by (simp add: Get_locked_def load_def split: option.splits sum.splits prod.splits)

lemma Get_locked_mutexes_update:
  "Get_locked key checked stored (l\<lparr>mutexes := ms\<rparr>) =
     (fst (Get_locked key checked stored l), (snd (Get_locked key checked stored l))\<lparr>mutexes := ms\<rparr>)"
  by (simp add: Get_locked_def load_def split: option.splits sum.splits prod.splits)

lemma mutexes_update_same: "mutexes l = ms \<Longrightarrow> l\<lparr>mutexes := ms\<rparr> = l"
  by auto

text \<open>On an idle cache no \<open>Lock()\<close> blocks, and lock and deferred unlock cancel.\<close>

lemma Get_idle:
  assumes "idle l"
  shows "Get key checked stored l = Get_locked key checked stored (register key l)"
  by (simp add: Get_def getKeyLockFromMap_idle [OF assms] key_mutex_free [OF assms]
      Get_locked_mutexes_update mutex_Unlock_def Get_locked_mutexes mutexes_update_same
      split: prod.splits)

lemma Put_idle:
  assumes "idle l"
  shows "Put key v now l =
     (Inr (), (register key l)\<lparr>dataMap :=
        (dataMap l)(key \<mapsto> \<lparr>Value = v, Expiration = now + cacheDuration l\<rparr>)\<rparr>)"
  by (simp add: Put_def getKeyLockFromMap_idle [OF assms] key_mutex_free [OF assms]
      mutex_Unlock_def)

lemma Get_load:
  assumes "idle l" and "stale l key checked"
    and "loadingFunc l key (world l) = (Inr newValue, w)"
  shows "Get key checked stored l =
     (Inr newValue,
      (register key l)\<lparr>world := w, calls := calls l @ [key],
        dataMap := (dataMap l)(key \<mapsto> \<lparr>Value = newValue, Expiration = stored + cacheDuration l\<rparr>)\<rparr>)"
  using assms(2,3)
  by (auto simp: Get_idle [OF assms(1)] Get_locked_def load_def stale_def split: option.splits)

lemma Get_panic:
  assumes "idle l" and "stale l key checked" and "loadingFunc l key (world l) = (Inl p, w)"
  shows "Get key checked stored l =
     (Inl (Panic p), (register key l)\<lparr>world := w, calls := calls l @ [key]\<rparr>)"
  using assms(2,3)
  by (auto simp: Get_idle [OF assms(1)] Get_locked_def load_def stale_def split: option.splits)

lemma Get_hit:
  assumes "idle l" and "dataMap l key = Some e" and "\<not> Expired e checked"
  shows "Get key checked stored l = (Inr (Value e), register key l)"
  using assms(2,3) by (simp add: Get_idle [OF assms(1)] Get_locked_def)

lemma idle_Get: "idle l \<Longrightarrow> idle (snd (Get key checked stored l))"
  by (simp add: Get_idle Get_locked_def load_def idle_register
      split: option.splits prod.splits sum.splits)

lemma idle_Put: "idle l \<Longrightarrow> idle (snd (Put key v now l))"
  by (simp add: Put_idle idle_register)

lemma stale_mono: "stale l key checked \<Longrightarrow> checked \<le> later \<Longrightarrow> stale l key later"
  by (auto simp: stale_def Expired_def split: option.splits)

lemma Get_calls_stale:
  assumes "idle l" and "stale l key checked"
  shows "calls (snd (Get key checked stored l)) = calls l @ [key]"
proof (cases "loadingFunc l key (world l)")
  case (Pair r w)
  then show ?thesis
    by (cases r) (simp_all add: Get_load [OF assms] Get_panic [OF assms])
qed

lemma Put_fields:
  assumes "idle l"
  shows "fst (Put key v now l) = Inr ()"
    and "dataMap (snd (Put key v now l)) =
           (dataMap l)(key \<mapsto> \<lparr>Value = v, Expiration = now + cacheDuration l\<rparr>)"
    and "calls (snd (Put key v now l)) = calls l"
    and "world (snd (Put key v now l)) = world l"
    and "cacheDuration (snd (Put key v now l)) = cacheDuration l"
  by (simp_all add: Put_idle [OF assms])

subsection \<open>The example caches\<close>

lemma NewLoadingCache_fields [simp]:
  "dataMap (NewLoadingCache f d w) = Map.empty"
  "lockMap (NewLoadingCache f d w) = Map.empty"
  "lockMapLock (NewLoadingCache f d w) = False"
  "mutexes (NewLoadingCache f d w) = []"
  "loadingFunc (NewLoadingCache f d w) = f"
  "cacheDuration (NewLoadingCache f d w) = d"
  "world (NewLoadingCache f d w) = w"
  "calls (NewLoadingCache f d w) = []"
  by (simp_all add: NewLoadingCache_def)

lemma idle_demo: "idle demo" "idle demo0" "idle demoF"
  by (simp_all add: demo_def demo0_def demoF_def idle_NewLoadingCache)

lemma demo_Get:
  "Get 5 0 0 demo =
     (Inr 10, (register 5 demo)\<lparr>world := 1, calls := [5],
        dataMap := [5 \<mapsto> \<lparr>Value = 10, Expiration = 100\<rparr>]\<rparr>)"
  using Get_load [where l = demo and key = 5 and checked = 0 and newValue = 10 and w = 1
      and stored = 0]
  by (simp add: demo_def idle_NewLoadingCache stale_def double_loader_def)


section \<open>Get and Put\<close>

text \<open>
  Claim C2. On an idle cache, if the key has no entry or an expired one, and the loader
  returns \<open>newValue\<close>, then \<open>Get\<close> returns \<open>newValue\<close>, has invoked the loader once
  with the key, and the store is the old one with the key's entry replaced by
  \<open>newValue\<close> expiring at the clock read when storing plus the TTL; if the key has an
  entry that is not expired, \<open>Get\<close> returns its value and does not invoke the loader.
\<close>

theorem Get_loads_or_returns_cached:
  assumes "idle l"
  shows "((dataMap l key = None \<or> (\<exists>e. dataMap l key = Some e \<and> Expired e checked)) \<and>
          loadingFunc l key (world l) = (Inr newValue, w) \<longrightarrow>
            fst (Get key checked stored l) = Inr newValue \<and>
            dataMap (snd (Get key checked stored l)) =
              (dataMap l)(key \<mapsto> \<lparr>Value = newValue, Expiration = stored + cacheDuration l\<rparr>) \<and>
            calls (snd (Get key checked stored l)) = calls l @ [key]) \<and>
         (\<forall>e. dataMap l key = Some e \<and> \<not> Expired e checked \<longrightarrow>
            fst (Get key checked stored l) = Inr (Value e) \<and>
            calls (snd (Get key checked stored l)) = calls l)"
  by (auto simp: Get_idle [OF assms] Get_locked_def load_def)

text \<open>
  Claim C2, at the scenario: on the new cache \<open>Get(5)\<close> loads 10 and stores it expiring
  at 100; on the cache so obtained \<open>Get(5)\<close> returns 10 and the loader is not called.
\<close>

theorem Get_loads_or_returns_cached_witness:
  "idle demo \<and> dataMap demo 5 = None \<and> fst (Get 5 0 0 demo) = Inr 10 \<and>
   dataMap (snd (Get 5 0 0 demo)) = [5 \<mapsto> \<lparr>Value = 10, Expiration = 100\<rparr>] \<and>
   calls (snd (Get 5 0 0 demo)) = [5] \<and>
   fst (Get 5 100 100 (snd (Get 5 0 0 demo))) = Inr 10 \<and>
   calls (snd (Get 5 100 100 (snd (Get 5 0 0 demo)))) = [5]"
  using Get_loads_or_returns_cached [where l = demo and key = 5 and checked = 0 and stored = 0
      and newValue = 10 and w = 1]
    Get_loads_or_returns_cached [where l = "snd (Get 5 0 0 demo)" and key = 5
      and checked = 100 and stored = 100]
  by (simp add: idle_demo idle_Get) (simp add: demo_Get Expired_def, simp add: demo_def double_loader_def)

text \<open>
  Claim C3, as the code has it. An entry is expired exactly when its expiration is
  strictly before the clock reading: at the reading equal to the expiration it is not
  expired, one unit later it is.
\<close>

theorem Expired_strict:
  "(Expired e now \<longleftrightarrow> Expiration e < now) \<and>
   \<not> Expired e (Expiration e) \<and> Expired e (Expiration e + 1)"
  by (simp add: Expired_def)

text \<open>
  Claim C3 as stated fails: an entry whose expiration equals the current time does not
  count as expired.
\<close>

theorem Expired_at_expiration_counterexample:
  "\<not> (Expired \<lparr>Value = (10::int), Expiration = 100\<rparr> 100 \<longleftrightarrow>
      Expiration \<lparr>Value = (10::int), Expiration = 100\<rparr> \<le> 100)"
  by (simp add: Expired_def)

text \<open>
  Claim C4. Let a \<open>Get\<close> on an idle cache load and store a value, reading the clock \<open>t\<close>
  when it stores, and let \<open>d\<close> be the TTL. A second \<open>Get\<close> for the key that reads
  \<open>t + d - \<epsilon>\<close>, \<open>0 < \<epsilon> \<le> d\<close>, returns the stored value and does not invoke the loader;
  one that reads \<open>t + d + \<epsilon>\<close>, \<open>0 < \<epsilon>\<close>, invokes the loader again.
\<close>

theorem Get_ttl:
  assumes "idle l" and "stale l key checked"
    and "loadingFunc l key (world l) = (Inr newValue, w)"
    and "l' = snd (Get key checked t l)" and "d = cacheDuration l"
  shows "(0 < \<epsilon> \<and> \<epsilon> \<le> d \<longrightarrow>
            fst (Get key (t + d - \<epsilon>) stored l') = Inr newValue \<and>
            calls (snd (Get key (t + d - \<epsilon>) stored l')) = calls l') \<and>
         (0 < \<epsilon> \<longrightarrow> calls (snd (Get key (t + d + \<epsilon>) stored l')) = calls l' @ [key])"
proof -
  have i: "idle l'" using assms(1,4) by (simp add: idle_Get)
  have e: "dataMap l' key = Some \<lparr>Value = newValue, Expiration = t + d\<rparr>"
    by (simp add: assms(4,5) Get_load [OF assms(1-3)])
  have a: "0 < \<epsilon> \<Longrightarrow> Get key (t + d - \<epsilon>) stored l' = (Inr newValue, register key l')"
    using Get_hit [OF i e, of "t + d - \<epsilon>" stored] by (simp add: Expired_def)
  have b: "0 < \<epsilon> \<Longrightarrow> stale l' key (t + d + \<epsilon>)"
    by (simp add: stale_def e Expired_def)
  show ?thesis using a Get_calls_stale [OF i b] by simp
qed

text \<open>
  Claim C4, at the scenario: TTL 100, \<open>Get(5)\<close> at 0, then at 50 (cached, loader not
  called) and at 150 (loader called a second time).
\<close>

theorem Get_ttl_witness:
  "idle demo \<and> stale demo 5 0 \<and>
   fst (Get 5 50 50 (snd (Get 5 0 0 demo))) = Inr 10 \<and>
   calls (snd (Get 5 50 50 (snd (Get 5 0 0 demo)))) = [5] \<and>
   calls (snd (Get 5 150 150 (snd (Get 5 0 0 demo)))) = [5, 5]"
  using Get_ttl [where l = demo and key = 5 and checked = 0 and newValue = 10 and w = 1
      and l' = "snd (Get 5 0 0 demo)" and t = 0 and d = 100 and \<epsilon> = 50 and stored = 50]
    Get_ttl [where l = demo and key = 5 and checked = 0 and newValue = 10 and w = 1
      and l' = "snd (Get 5 0 0 demo)" and t = 0 and d = 100 and \<epsilon> = 50 and stored = 150]
  by (simp add: idle_demo stale_def demo_Get) (simp add: demo_def double_loader_def)

text \<open>
  Claim C5. If the loader panics during a load on an idle cache, \<open>Get\<close> ends with that
  panic value, the key's mutex exists and is free afterwards (the cache is idle again),
  the value store is unchanged, and a later \<open>Get\<close> for the key invokes the loader again.
\<close>

theorem Get_loader_panic:
  assumes "idle l" and "stale l key checked"
    and "loadingFunc l key (world l) = (Inl p, w)"
    and "l' = snd (Get key checked stored l)" and "checked \<le> later"
  shows "fst (Get key checked stored l) = Inl (Panic p) \<and>
         (\<exists>keyLock. lockMap l' key = Some keyLock \<and> keyLock < length (mutexes l') \<and>
            \<not> mutexes l' ! keyLock) \<and>
         idle l' \<and> dataMap l' = dataMap l \<and>
         calls (snd (Get key later afterwards l')) = calls l' @ [key]"
proof -
  have g: "Get key checked stored l =
      (Inl (Panic p), (register key l)\<lparr>world := w, calls := calls l @ [key]\<rparr>)"
    by (rule Get_panic [OF assms(1-3)])
  have i: "idle l'" using assms(1,4) by (simp add: idle_Get)
  have d: "dataMap l' = dataMap l" by (simp add: assms(4) g)
  have s: "stale l' key later" using stale_mono [OF assms(2,5)] by (simp add: stale_def d)
  have k: "lockMap l' key = Some (fst (lookupOrCreate key l)) \<and>
      fst (lookupOrCreate key l) < length (mutexes l')"
    using register_lock [OF assms(1), of key] by (simp add: assms(4) g)
  then have "\<not> mutexes l' ! fst (lookupOrCreate key l)"
    using i by (auto simp: idle_def dest: nth_mem)
  with k show ?thesis using g i d Get_calls_stale [OF i s] by auto
qed

text \<open>Claim C5, at a cache whose loader always panics.\<close>

theorem Get_loader_panic_witness:
  "idle demoF \<and> stale demoF 5 0 \<and> fst (Get 5 0 0 demoF) = Inl (Panic ''boom'') \<and>
   idle (snd (Get 5 0 0 demoF)) \<and> dataMap (snd (Get 5 0 0 demoF)) = Map.empty \<and>
   calls (snd (Get 5 1 1 (snd (Get 5 0 0 demoF)))) = calls (snd (Get 5 0 0 demoF)) @ [5]"
  using Get_loader_panic [where l = demoF and key = 5 and checked = 0 and p = "''boom''"
      and w = 1 and l' = "snd (Get 5 0 0 demoF)" and stored = 0 and later = 1 and afterwards = 1]
  by (simp add: idle_demo stale_def) (simp add: demoF_def failing_loader_def)

text \<open>
  Claim C6, as the code has it. On an idle cache \<open>Put\<close> returns, does not invoke the
  loader, and replaces the key's entry, whatever it was, by the value expiring at its clock
  reading plus the TTL. A \<open>Get\<close> for the key that follows returns the value and does not
  invoke the loader when the clock it reads is at most that expiration (for a TTL that is
  not negative, the same clock reading is); when the clock it reads is after that
  expiration it invokes the loader.
\<close>

theorem Put_overwrites:
  assumes "idle l" and "l' = snd (Put key v now l)"
  shows "fst (Put key v now l) = Inr () \<and> calls l' = calls l \<and> world l' = world l \<and>
         dataMap l' = (dataMap l)(key \<mapsto> \<lparr>Value = v, Expiration = now + cacheDuration l\<rparr>) \<and>
         (checked \<le> now + cacheDuration l \<longrightarrow>
            fst (Get key checked stored l') = Inr v \<and>
            calls (snd (Get key checked stored l')) = calls l) \<and>
         (now + cacheDuration l < checked \<longrightarrow>
            calls (snd (Get key checked stored l')) = calls l @ [key])"
proof -
  have i: "idle l'" using assms by (simp add: idle_Put)
  have e: "dataMap l' key = Some \<lparr>Value = v, Expiration = now + cacheDuration l\<rparr>"
    by (simp add: assms(2) Put_fields [OF assms(1)])
  have c: "calls l' = calls l" by (simp add: assms(2) Put_fields [OF assms(1)])
  have "checked \<le> now + cacheDuration l \<Longrightarrow>
      Get key checked stored l' = (Inr v, register key l')"
    using Get_hit [OF i e, of checked stored] by (simp add: Expired_def)
  moreover have "calls (snd (Get key checked stored l')) = calls l @ [key]"
    if "now + cacheDuration l < checked"
  proof -
    have "stale l' key checked" using that by (simp add: stale_def e Expired_def)
    then show ?thesis using Get_calls_stale [OF i] c by simp
  qed
  ultimately show ?thesis by (simp add: assms(2) Put_fields [OF assms(1)])
qed

text \<open>
  Claim C6 as amended, at the scenario: after \<open>Get(5)\<close> has cached 10, \<open>Put(5, 999)\<close> at
  150, when that entry is expired, then \<open>Get(5)\<close> at 150 returns 999 and the loader is not
  called; a \<open>Get(5)\<close> at 251, after the new entry's expiration, calls the loader.
\<close>

theorem Put_overwrites_witness:
  "idle (snd (Get 5 0 0 demo)) \<and>
   fst (Put 5 999 150 (snd (Get 5 0 0 demo))) = Inr () \<and>
   dataMap (snd (Put 5 999 150 (snd (Get 5 0 0 demo)))) =
     [5 \<mapsto> \<lparr>Value = 999, Expiration = 250\<rparr>] \<and>
   fst (Get 5 150 150 (snd (Put 5 999 150 (snd (Get 5 0 0 demo))))) = Inr 999 \<and>
   calls (snd (Get 5 150 150 (snd (Put 5 999 150 (snd (Get 5 0 0 demo)))))) = [5] \<and>
   calls (snd (Get 5 251 251 (snd (Put 5 999 150 (snd (Get 5 0 0 demo)))))) = [5, 5]"
  using Put_overwrites [where l = "snd (Get 5 0 0 demo)"
      and l' = "snd (Put 5 999 150 (snd (Get 5 0 0 demo)))" and key = 5 and v = 999
      and now = 150 and checked = 150 and stored = 150]
    Put_overwrites [where l = "snd (Get 5 0 0 demo)"
      and l' = "snd (Put 5 999 150 (snd (Get 5 0 0 demo)))" and key = 5 and v = 999
      and now = 150 and checked = 251 and stored = 251]
  by (simp add: idle_demo idle_Get) (simp add: demo_Get, simp add: demo_def)

text \<open>
  Claim C6 as stated fails. On a cache with TTL 0, \<open>Put(5, 999)\<close> at the clock reading 7
  stores an entry expiring at 7; the \<open>Get(5)\<close> that follows and reads the clock at 8 finds
  it expired, invokes the loader and returns 10, not 999.
\<close>

theorem Put_then_Get_after_ttl_counterexample:
  "idle demo0 \<and> cacheDuration demo0 = 0 \<and> fst (Put 5 999 7 demo0) = Inr () \<and>
   dataMap (snd (Put 5 999 7 demo0)) 5 = Some \<lparr>Value = 999, Expiration = 7\<rparr> \<and>
   fst (Get 5 8 8 (snd (Put 5 999 7 demo0))) = Inr 10 \<and>
   fst (Get 5 8 8 (snd (Put 5 999 7 demo0))) \<noteq> Inr 999 \<and>
   calls (snd (Put 5 999 7 demo0)) = [] \<and>
   calls (snd (Get 5 8 8 (snd (Put 5 999 7 demo0)))) = [5]"
proof -
  note p = Put_fields [OF idle_demo(2), of 5 999 7]
  note q = Put_idle [OF idle_demo(2), of 5 999 7]
  have i: "idle (snd (Put 5 999 7 demo0))" by (rule idle_Put [OF idle_demo(2)])
  have s: "stale (snd (Put 5 999 7 demo0)) 5 8"
    by (simp add: stale_def p Expired_def) (simp add: demo0_def)
  have f: "loadingFunc (snd (Put 5 999 7 demo0)) 5 (world (snd (Put 5 999 7 demo0))) = (Inr 10, 1)"
    by (simp add: q) (simp add: demo0_def double_loader_def)
  note g = Get_load [OF i s f, of 8]
  show ?thesis by (simp add: g idle_demo) (simp add: q, simp add: demo0_def)
qed


text \<open>
  Claim C7, as the code has it. With a TTL of zero on an idle cache, a \<open>Get\<close> that loads
  returns the loaded value to its caller, and an entry written by \<open>Get\<close> or \<open>Put\<close> at the
  clock reading \<open>t\<close> is expired at every access that reads a clock strictly after \<open>t\<close>:
  that \<open>Get\<close> invokes the loader again.
\<close>

theorem zero_ttl:
  assumes "idle l" and "cacheDuration l = 0"
  shows "(stale l key checked \<and> loadingFunc l key (world l) = (Inr newValue, w) \<longrightarrow>
            fst (Get key checked t l) = Inr newValue \<and>
            (t < later \<longrightarrow>
               calls (snd (Get key later afterwards (snd (Get key checked t l)))) =
               calls (snd (Get key checked t l)) @ [key])) \<and>
         (t < later \<longrightarrow>
            calls (snd (Get key later afterwards (snd (Put key v t l)))) =
            calls (snd (Put key v t l)) @ [key])"
proof -
  have a: "calls (snd (Get key later afterwards (snd (Get key checked t l)))) =
      calls (snd (Get key checked t l)) @ [key]"
    if s: "stale l key checked" and f: "loadingFunc l key (world l) = (Inr newValue, w)"
      and t: "t < later"
  proof -
    have "stale (snd (Get key checked t l)) key later"
      using t by (simp add: Get_load [OF assms(1) s f] stale_def Expired_def assms(2))
    then show ?thesis by (rule Get_calls_stale [OF idle_Get [OF assms(1)]])
  qed
  have b: "calls (snd (Get key later afterwards (snd (Put key v t l)))) =
      calls (snd (Put key v t l)) @ [key]"
    if t: "t < later"
  proof -
    have "stale (snd (Put key v t l)) key later"
      using t by (simp add: Put_fields [OF assms(1)] stale_def Expired_def assms(2))
    then show ?thesis by (rule Get_calls_stale [OF idle_Put [OF assms(1)]])
  qed
  show ?thesis using a b by (auto simp: Get_load [OF assms(1)])
qed

text \<open>Claim C7 as amended, at a cache with TTL 0: written at 7, read again at 8.\<close>

theorem zero_ttl_witness:
  "idle demo0 \<and> cacheDuration demo0 = 0 \<and> stale demo0 5 7 \<and>
   fst (Get 5 7 7 demo0) = Inr 10 \<and>
   calls (snd (Get 5 8 8 (snd (Get 5 7 7 demo0)))) = calls (snd (Get 5 7 7 demo0)) @ [5] \<and>
   calls (snd (Get 5 8 8 (snd (Put 5 999 7 demo0)))) = calls (snd (Put 5 999 7 demo0)) @ [5]"
  using zero_ttl [where l = demo0 and key = 5 and checked = 7 and newValue = 10 and w = 1
      and t = 7 and later = 8 and afterwards = 8 and v = 999]
  by (simp add: idle_demo stale_def) (simp add: demo0_def double_loader_def)

text \<open>
  Claim C7 as stated fails: with TTL 0, the entry that \<open>Get\<close> stored at the clock reading
  7 is not expired at a next access that reads 7 again; that \<open>Get\<close> returns the cached
  value and the loader is not invoked.
\<close>

theorem zero_ttl_same_reading_counterexample:
  "cacheDuration demo0 = 0 \<and> fst (Get 5 7 7 demo0) = Inr 10 \<and>
   fst (Get 5 7 7 (snd (Get 5 7 7 demo0))) = Inr 10 \<and>
   calls (snd (Get 5 7 7 (snd (Get 5 7 7 demo0)))) \<noteq> calls (snd (Get 5 7 7 demo0)) @ [5]"
proof -
  have s: "stale demo0 5 7" by (simp add: stale_def demo0_def)
  have f: "loadingFunc demo0 5 (world demo0) = (Inr 10, 1)"
    by (simp add: demo0_def double_loader_def)
  note g = Get_load [OF idle_demo(2) s f, of 7]
  have e: "dataMap (snd (Get 5 7 7 demo0)) 5 = Some \<lparr>Value = 10, Expiration = 7\<rparr>"
    by (simp add: g) (simp add: demo0_def)
  have h: "Get 5 7 7 (snd (Get 5 7 7 demo0)) = (Inr 10, register 5 (snd (Get 5 7 7 demo0)))"
    using Get_hit [OF idle_Get [OF idle_demo(2)] e, of 7 7] by (simp add: Expired_def)
  show ?thesis by (simp add: h) (simp add: g, simp add: demo0_def)
qed

text \<open>
  Claim C9. When \<open>Get\<close> on an idle cache finds an entry for the key that is not expired,
  it returns the entry's value and writes nothing: value store, loader log and loader
  state are unchanged, and the cache is unchanged altogether when the key already has its
  mutex; otherwise the only change is the new mutex and its registry entry.
\<close>

theorem Get_hit_no_write:
  assumes "idle l" and "dataMap l key = Some e" and "\<not> Expired e checked"
  shows "fst (Get key checked stored l) = Inr (Value e) \<and>
         dataMap (snd (Get key checked stored l)) = dataMap l \<and>
         calls (snd (Get key checked stored l)) = calls l \<and>
         world (snd (Get key checked stored l)) = world l \<and>
         snd (Get key checked stored l) =
           (case lockMap l key of
              Some keyLock \<Rightarrow> l
            | None \<Rightarrow> l\<lparr>mutexes := mutexes l @ [False],
                          lockMap := (lockMap l)(key \<mapsto> length (mutexes l))\<rparr>)"
  by (cases "lockMap l key") (simp_all add: Get_hit [OF assms] register_known register_new)

text \<open>Claim C9, at the scenario: the second \<open>Get(5)\<close> leaves the cache as it was.\<close>

theorem Get_hit_no_write_witness:
  "idle (snd (Get 5 0 0 demo)) \<and>
   dataMap (snd (Get 5 0 0 demo)) 5 = Some \<lparr>Value = 10, Expiration = 100\<rparr> \<and>
   \<not> Expired \<lparr>Value = (10::int), Expiration = 100\<rparr> 100 \<and>
   fst (Get 5 100 100 (snd (Get 5 0 0 demo))) = Inr 10 \<and>
   snd (Get 5 100 100 (snd (Get 5 0 0 demo))) = snd (Get 5 0 0 demo)"
proof -
  have k: "lockMap (snd (Get 5 0 0 demo)) 5 = Some 0"
    by (simp add: demo_Get) (simp add: register_new demo_def)
  have e: "dataMap (snd (Get 5 0 0 demo)) 5 = Some \<lparr>Value = 10, Expiration = 100\<rparr>"
    by (simp add: demo_Get)
  have x: "\<not> Expired \<lparr>Value = (10::int), Expiration = 100\<rparr> 100" by (simp add: Expired_def)
  show ?thesis
    using Get_hit_no_write [where l = "snd (Get 5 0 0 demo)" and key = 5
        and e = "\<lparr>Value = 10, Expiration = 100\<rparr>" and checked = 100 and stored = 100] k e x
    by (simp add: idle_Get idle_demo)
qed

subsection \<open>The value store over a sequence of calls\<close>

lemma Get_dataMap_cases:
  "dataMap (snd (Get key checked stored l)) = dataMap l \<or>
   (\<exists>v. fst (Get key checked stored l) = Inr v \<and>
      dataMap (snd (Get key checked stored l)) =
        (dataMap l)(key \<mapsto> \<lparr>Value = v, Expiration = stored + cacheDuration l\<rparr>) \<and>
      calls (snd (Get key checked stored l)) = calls l @ [key])"
  by (auto simp: Get_def getKeyLockFromMap_def lookupOrCreate_def Let_def mutex_Lock_def
      mutex_Unlock_def Get_locked_def load_def split: option.splits prod.splits sum.splits if_splits)

lemma Put_dataMap_cases:
  "dataMap (snd (Put key v now l)) = dataMap l \<or>
   dataMap (snd (Put key v now l)) =
     (dataMap l)(key \<mapsto> \<lparr>Value = v, Expiration = now + cacheDuration l\<rparr>)"
  by (auto simp: Put_def getKeyLockFromMap_def lookupOrCreate_def Let_def mutex_Lock_def
      mutex_Unlock_def split: option.splits prod.splits if_splits)

lemma apply_op_dataMap_dom: "dom (dataMap l) \<subseteq> dom (dataMap (apply_op x l))"
proof (cases x)
  case (OpGet key checked stored)
  then show ?thesis using Get_dataMap_cases [of key checked stored l] by auto
next
  case (OpPut key v now)
  then show ?thesis using Put_dataMap_cases [of key v now l] by auto
qed

lemma apply_op_dataMap_other:
  assumes "op_key x \<noteq> key"
  shows "dataMap (apply_op x l) key = dataMap l key"
proof (cases x)
  case (OpGet k checked stored)
  then show ?thesis using assms Get_dataMap_cases [of k checked stored l] by auto
next
  case (OpPut k v now)
  then show ?thesis using assms Put_dataMap_cases [of k v now l] by auto
qed

lemma run_dataMap_dom: "dom (dataMap l) \<subseteq> dom (dataMap (run xs l))"
proof (induction xs arbitrary: l)
  case Nil
  show ?case by simp
next
  case (Cons x xs)
  show ?case using apply_op_dataMap_dom [of l x] Cons.IH [of "apply_op x l"] by auto
qed

lemma run_dataMap_other:
  "\<forall>x \<in> set xs. op_key x \<noteq> key \<Longrightarrow> dataMap (run xs l) key = dataMap l key"
  by (induction xs arbitrary: l) (simp_all add: apply_op_dataMap_other)

lemma apply_op_dataMap_change:
  assumes "dataMap (apply_op x l) key \<noteq> dataMap l key"
  shows "(\<exists>v now. x = OpPut key v now) \<or>
         (\<exists>checked stored v. x = OpGet key checked stored \<and>
            fst (Get key checked stored l) = Inr v \<and> calls (apply_op x l) = calls l @ [key])"
proof (cases x)
  case (OpGet k checked stored)
  then show ?thesis using assms Get_dataMap_cases [of k checked stored l]
    by (cases "k = key") auto
next
  case (OpPut k v now)
  then show ?thesis using assms Put_dataMap_cases [of k v now l]
    by (cases "k = key") auto
qed

lemma advance_dataMap_dom:
  assumes "advance now c pc l = (pc', l')"
  shows "dom (dataMap l) \<subseteq> dom (dataMap l')"
  using assms
  by (cases pc)
     (auto simp: mutex_Lock_def mutex_Unlock_def
        split: call.splits option.splits if_splits prod.splits sum.splits)

lemma proceed_dataMap_dom: "dom (dataMap (shared s)) \<subseteq> dom (dataMap (shared (proceed i s)))"
proof (cases "goroutines s i")
  case None
  then show ?thesis by (simp add: proceed_def)
next
  case (Some x)
  obtain c pc where g: "goroutines s i = Some (c, pc)" using Some by (cases x) simp
  obtain pc' l' where adv: "advance (clock s) c pc (shared s) = (pc', l')" by force
  show ?thesis using advance_dataMap_dom [OF adv] by (simp add: proceed_def g adv)
qed

lemma perform_dataMap_dom: "dom (dataMap (shared s)) \<subseteq> dom (dataMap (shared (perform a s)))"
  using proceed_dataMap_dom [of s] by (cases a) simp_all

lemma execute_dataMap_dom:
  "dom (dataMap (shared s)) \<subseteq> dom (dataMap (shared (execute as s)))"
proof (induction as arbitrary: s)
  case Nil
  show ?case by simp
next
  case (Cons a as)
  show ?case using perform_dataMap_dom [of s a] Cons.IH [of "perform a s"] by auto
qed

section \<open>Concurrent behaviour\<close>

subsection \<open>The lock discipline holds in every reachable state\<close>

lemma spawn_fields [simp]:
  "shared (spawn l now cs) = l" "clock (spawn l now cs) = now"
  "goroutines (spawn l now cs) i = (if i < length cs then Some (cs ! i, AtStart) else None)"
  "crashed (spawn l now cs) = False"
  by (simp_all add: spawn_def)

lemma spawn_sets [simp]: "in_registry_set (spawn l now cs) = {}" "holders (spawn l now cs) n = {}"
  by (auto simp: in_registry_set_def holders_def split: if_splits)

lemma consistent_spawn:
  assumes "idle l"
  shows "consistent (spawn l now cs)"
proof -
  have "registry_exclusive (spawn l now cs)"
    using assms by (simp add: registry_exclusive_def idle_def)
  moreover have "registry_agrees (spawn l now cs)"
    using assms by (auto simp: registry_agrees_def idle_def ran_def split: if_splits)
  moreover have "mutex_exclusive (spawn l now cs)"
    using assms by (auto simp: mutex_exclusive_def idle_def dest: nth_mem)
  ultimately show ?thesis by (simp add: consistent_def)
qed

lemma tick_sets [simp]:
  "in_registry_set (s\<lparr>clock := t\<rparr>) = in_registry_set s" "holders (s\<lparr>clock := t\<rparr>) = holders s"
  "in_registry_set (s\<lparr>crashed := b\<rparr>) = in_registry_set s" "holders (s\<lparr>crashed := b\<rparr>) = holders s"
  by (simp_all add: in_registry_set_def holders_def fun_eq_iff)

lemma consistent_tick [simp]:
  "consistent (s\<lparr>clock := t\<rparr>) = consistent s" "consistent (s\<lparr>crashed := b\<rparr>) = consistent s"
  by (simp_all add: consistent_def registry_exclusive_def registry_agrees_def mutex_exclusive_def)

lemma proceed_None: "goroutines s i = None \<Longrightarrow> proceed i s = s"
  by (simp add: proceed_def)

lemma proceed_Step:
  assumes "goroutines s i = Some (c, pc)"
    and "advance (clock s) c pc (shared s) = (pc', l')"
  shows "proceed i s = s\<lparr>shared := l', goroutines := (goroutines s)(i \<mapsto> (c, pc'))\<rparr>"
  using assms by (simp add: proceed_def)

lemma proceed_fields [simp]: "clock (proceed i s) = clock s" "crashed (proceed i s) = crashed s"
  by (simp_all add: proceed_def split: option.splits prod.splits)

lemma in_registry_set_update:
  "in_registry_set (s\<lparr>shared := l', goroutines := (goroutines s)(i \<mapsto> (c, pc'))\<rparr>) =
     (if in_registry pc' then insert i (in_registry_set s) else in_registry_set s - {i})"
  by (auto simp: in_registry_set_def)

lemma holders_update:
  "holders (s\<lparr>shared := l', goroutines := (goroutines s)(i \<mapsto> (c, pc'))\<rparr>) n =
     (if holds pc' = Some n then insert i (holders s n) else holders s n - {i})"
  by (auto simp: holders_def)

lemma in_registry_set_iff:
  "goroutines s i = Some (c, pc) \<Longrightarrow> i \<in> in_registry_set s \<longleftrightarrow> in_registry pc"
  by (simp add: in_registry_set_def)

lemma holders_iff:
  "goroutines s i = Some (c, pc) \<Longrightarrow> i \<in> holders s n \<longleftrightarrow> holds pc = Some n"
  by (simp add: holders_def)


lemma registry_exclusive_update:
  assumes "registry_exclusive s" and "goroutines s i = Some (c, pc)"
    and "lockMapLock l' =
      (if in_registry pc' then True else if in_registry pc then False else lockMapLock (shared s))"
    and "in_registry pc' \<and> \<not> in_registry pc \<longrightarrow> \<not> lockMapLock (shared s)"
  shows "registry_exclusive (s\<lparr>shared := l', goroutines := (goroutines s)(i \<mapsto> (c, pc'))\<rparr>)"
proof -
  let ?R = "in_registry_set s"
  have i: "i \<in> ?R \<longleftrightarrow> in_registry pc" by (rule in_registry_set_iff [OF assms(2)])
  have u: "\<forall>a \<in> ?R. \<forall>b \<in> ?R. a = b" and e: "lockMapLock (shared s) \<longleftrightarrow> ?R \<noteq> {}"
    using assms(1) by (simp_all add: registry_exclusive_def)
  show ?thesis
  proof (cases "in_registry pc'")
    case True
    have "?R \<subseteq> {i}"
    proof (cases "in_registry pc")
      case True
      then show ?thesis using u i by blast
    next
      case False
      then show ?thesis using assms(4) e \<open>in_registry pc'\<close> by simp
    qed
    then show ?thesis using True assms(3)
      by (auto simp: registry_exclusive_def in_registry_set_update)
  next
    case False
    show ?thesis
    proof (cases "in_registry pc")
      case True
      then have "?R - {i} = {}" using u i by blast
      then show ?thesis using False True assms(3)
        by (auto simp: registry_exclusive_def in_registry_set_update)
    next
      case no: False
      then have "?R - {i} = ?R" using i by blast
      then show ?thesis using False no assms(3) u e
        by (simp add: registry_exclusive_def in_registry_set_update)
    qed
  qed
qed

lemma lock_known_mono:
  assumes "lock_known l key q" and "lockMap l' = lockMap l"
    and "length (mutexes l) \<le> length (mutexes l')"
  shows "lock_known l' key q"
  using assms by (cases q) simp_all

lemma registry_agrees_update:
  assumes "registry_agrees s" and "lockMap l' = lockMap (shared s)"
    and "length (mutexes (shared s)) \<le> length (mutexes l')"
    and "lock_known l' (call_key c) pc'"
  shows "registry_agrees (s\<lparr>shared := l', goroutines := (goroutines s)(i \<mapsto> (c, pc'))\<rparr>)"
proof -
  have a: "lock_known (shared s) (call_key d) q" if "goroutines s j = Some (d, q)" for j d q
    using assms(1) that by (simp add: registry_agrees_def)
  have b: "n < length (mutexes (shared s))" if "lockMap (shared s) k = Some n" for k n
    using assms(1) that by (simp add: registry_agrees_def)
  have "lock_known l' (call_key d) q"
    if "((goroutines s)(i \<mapsto> (c, pc'))) j = Some (d, q)" for j d q
  proof (cases "j = i")
    case True
    then show ?thesis using that assms(4) by simp
  next
    case False
    then show ?thesis using that a [of j d q] lock_known_mono [OF _ assms(2,3)] by simp
  qed
  moreover have "n < length (mutexes l')" if "lockMap l' k = Some n" for k n
    using that b [of k n] assms(2,3) by simp
  ultimately show ?thesis by (simp add: registry_agrees_def)
qed

lemma lock_known_insert:
  assumes "lock_known l key q" and "\<not> in_registry q" and "key = k \<longrightarrow> lockMap l k = None"
  shows "lock_known (l\<lparr>lockMap := (lockMap l)(k \<mapsto> n)\<rparr>) key q"
  using assms by (cases q) auto

lemma registry_agrees_insert:
  assumes "registry_agrees s" and "registry_exclusive s"
    and "goroutines s i = Some (c, AtInsert n)"
  shows "registry_agrees (s\<lparr>shared := (shared s)\<lparr>lockMap := (lockMap (shared s))(call_key c \<mapsto> n)\<rparr>,
           goroutines := (goroutines s)(i \<mapsto> (c, AtRelease n))\<rparr>)"
proof -
  let ?l = "shared s"
  have a: "lock_known ?l (call_key d) q" if "goroutines s j = Some (d, q)" for j d q
    using assms(1) that by (simp add: registry_agrees_def)
  have b: "m < length (mutexes ?l)" if "lockMap ?l k = Some m" for k m
    using assms(1) that by (simp add: registry_agrees_def)
  have me: "lockMap ?l (call_key c) = None" "n < length (mutexes ?l)"
    using a [OF assms(3)] by simp_all
  have i: "i \<in> in_registry_set s" using in_registry_set_iff [OF assms(3)] by simp
  have other: "\<not> in_registry q" if "goroutines s j = Some (d, q)" "j \<noteq> i" for j d q
  proof
    assume "in_registry q"
    then have "j \<in> in_registry_set s" using in_registry_set_iff [OF that(1)] by simp
    then show False using i assms(2) that(2) by (auto simp: registry_exclusive_def)
  qed
  have "lock_known (?l\<lparr>lockMap := (lockMap ?l)(call_key c \<mapsto> n)\<rparr>) (call_key d) q"
    if "((goroutines s)(i \<mapsto> (c, AtRelease n))) j = Some (d, q)" for j d q
  proof (cases "j = i")
    case True
    then show ?thesis using that by auto
  next
    case False
    then have g: "goroutines s j = Some (d, q)" using that by simp
    show ?thesis
      by (rule lock_known_insert [OF a [OF g] other [OF g False]]) (simp add: me)
  qed
  moreover have "m < length (mutexes ?l)"
    if "((lockMap ?l)(call_key c \<mapsto> n)) k = Some m" for k m
    using that b [of k m] me(2) by (cases "k = call_key c") simp_all
  ultimately show ?thesis by (simp add: registry_agrees_def)
qed


lemma holders_same:
  assumes "goroutines s i = Some (c, pc)" and "holds pc' = holds pc"
  shows "holders (s\<lparr>shared := l', goroutines := (goroutines s)(i \<mapsto> (c, pc'))\<rparr>) n = holders s n"
  using holders_iff [OF assms(1), of n] assms(2) by (auto simp: holders_update)

lemma mutex_exclusive_same:
  assumes "mutex_exclusive s" and "goroutines s i = Some (c, pc)" and "holds pc' = holds pc"
    and "mutexes l' = mutexes (shared s)"
  shows "mutex_exclusive (s\<lparr>shared := l', goroutines := (goroutines s)(i \<mapsto> (c, pc'))\<rparr>)"
  using assms(1,4) by (simp add: mutex_exclusive_def holders_same [OF assms(2,3)])

lemma mutex_exclusive_grow:
  assumes "mutex_exclusive s" and "goroutines s i = Some (c, pc)" and "holds pc' = holds pc"
    and "mutexes l' = mutexes (shared s) @ [False]"
    and "holders s (length (mutexes (shared s))) = {}"
  shows "mutex_exclusive (s\<lparr>shared := l', goroutines := (goroutines s)(i \<mapsto> (c, pc'))\<rparr>)"
  using assms(1,4,5)
  by (auto simp: mutex_exclusive_def holders_same [OF assms(2,3)] nth_append less_Suc_eq)

lemma mutex_exclusive_lock:
  assumes "mutex_exclusive s" and "goroutines s i = Some (c, pc)" and "holds pc = None"
    and "holds pc' = Some m" and "m < length (mutexes (shared s))"
    and "\<not> mutexes (shared s) ! m" and "mutexes l' = (mutexes (shared s))[m := True]"
  shows "mutex_exclusive (s\<lparr>shared := l', goroutines := (goroutines s)(i \<mapsto> (c, pc'))\<rparr>)"
proof -
  let ?s' = "s\<lparr>shared := l', goroutines := (goroutines s)(i \<mapsto> (c, pc'))\<rparr>"
  have free: "holders s m = {}" using assms(1,5,6) by (simp add: mutex_exclusive_def)
  have out: "i \<notin> holders s n" for n using holders_iff [OF assms(2), of n] assms(3) by simp
  have h: "holders ?s' n = (if n = m then {i} else holders s n)" for n
    using free out [of n] assms(4) by (auto simp: holders_update)
  show ?thesis using assms(1,5,7)
    by (auto simp: mutex_exclusive_def h nth_list_update)
qed

lemma mutex_exclusive_unlock:
  assumes "mutex_exclusive s" and "goroutines s i = Some (c, pc)" and "holds pc = Some m"
    and "holds pc' = None" and "m < length (mutexes (shared s))"
    and "mutexes l' = (mutexes (shared s))[m := False]"
  shows "mutex_exclusive (s\<lparr>shared := l', goroutines := (goroutines s)(i \<mapsto> (c, pc'))\<rparr>)"
proof -
  let ?s' = "s\<lparr>shared := l', goroutines := (goroutines s)(i \<mapsto> (c, pc'))\<rparr>"
  have mine: "i \<in> holders s n \<longleftrightarrow> n = m" for n
    using holders_iff [OF assms(2), of n] assms(3) by auto
  have one: "holders s m \<subseteq> {i}" using assms(1) mine [of m] by (auto simp: mutex_exclusive_def)
  have h: "holders ?s' n = (if n = m then {} else holders s n)" for n
    using one mine [of n] assms(4) by (auto simp: holders_update)
  show ?thesis using assms(1,5,6)
    by (auto simp: mutex_exclusive_def h nth_list_update)
qed

lemma holders_in_range:
  assumes "registry_agrees s" and "i \<in> holders s n"
  shows "n < length (mutexes (shared s))"
proof -
  obtain c pc where g: "goroutines s i = Some (c, pc)" and h: "holds pc = Some n"
    using assms(2) by (auto simp: holders_def)
  have "lock_known (shared s) (call_key c) pc" using assms(1) g by (simp add: registry_agrees_def)
  then have "lockMap (shared s) (call_key c) = Some n" using h by (cases pc) simp_all
  then show ?thesis using assms(1) by (simp add: registry_agrees_def)
qed


lemma registry_held:
  assumes "registry_exclusive s" and "goroutines s i = Some (c, pc)" and "in_registry pc"
  shows "lockMapLock (shared s)"
  using assms(1) in_registry_set_iff [OF assms(2)] assms(3)
  by (auto simp: registry_exclusive_def)

lemma consistent_local:
  assumes "consistent s" and "goroutines s i = Some (c, pc)"
    and "in_registry pc' = in_registry pc" and "holds pc' = holds pc"
    and "lockMapLock l' = lockMapLock (shared s)" and "lockMap l' = lockMap (shared s)"
    and "mutexes l' = mutexes (shared s)" and "lock_known l' (call_key c) pc'"
  shows "consistent (s\<lparr>shared := l', goroutines := (goroutines s)(i \<mapsto> (c, pc'))\<rparr>)"
proof -
  have r: "registry_exclusive s" and a: "registry_agrees s" and m: "mutex_exclusive s"
    using assms(1) by (simp_all add: consistent_def)
  have "registry_exclusive (s\<lparr>shared := l', goroutines := (goroutines s)(i \<mapsto> (c, pc'))\<rparr>)"
    using registry_held [OF r assms(2)] assms(3,5)
    by (intro registry_exclusive_update [OF r assms(2)]) auto
  moreover have "registry_agrees (s\<lparr>shared := l', goroutines := (goroutines s)(i \<mapsto> (c, pc'))\<rparr>)"
    by (rule registry_agrees_update [OF a assms(6) _ assms(8)]) (simp add: assms(7))
  moreover have "mutex_exclusive (s\<lparr>shared := l', goroutines := (goroutines s)(i \<mapsto> (c, pc'))\<rparr>)"
    by (rule mutex_exclusive_same [OF m assms(2,4,7)])
  ultimately show ?thesis by (simp add: consistent_def)
qed

lemma advance_local:
  assumes "advance now c pc l = (pc', l')"
    and "pc = AtLookup \<or> pc = AtRead n \<or> pc = AtLoad n \<or> pc = AtStore n v \<or> pc = Finished r"
    and "lock_known l (call_key c) pc"
  shows "in_registry pc' = in_registry pc \<and> holds pc' = holds pc \<and>
         lockMapLock l' = lockMapLock l \<and> lockMap l' = lockMap l \<and>
         mutexes l' = mutexes l \<and> lock_known l' (call_key c) pc'"
  using assms
  by (elim disjE) (auto split: call.splits option.splits if_splits prod.splits sum.splits)


lemma proceed_stutter:
  assumes "goroutines s i = Some (c, pc)" and "advance (clock s) c pc (shared s) = (pc, shared s)"
  shows "proceed i s = s"
proof -
  have "(goroutines s)(i \<mapsto> (c, pc)) = goroutines s" using assms(1) by (rule map_upd_triv)
  then show ?thesis using assms by (simp add: proceed_def)
qed

lemma consistent_step:
  assumes "consistent s"
  shows "consistent (proceed i s)"
proof (cases "goroutines s i")
  case None
  then show ?thesis using assms by (simp add: proceed_None)
next
  case (Some a)
  obtain c pc where g: "goroutines s i = Some (c, pc)" using Some by (cases a) simp
  obtain pc' l' where adv: "advance (clock s) c pc (shared s) = (pc', l')" by force
  note step = proceed_Step [OF g adv]
  have r: "registry_exclusive s" and a: "registry_agrees s" and m: "mutex_exclusive s"
    using assms by (simp_all add: consistent_def)
  have k: "lock_known (shared s) (call_key c) pc" using a g by (simp add: registry_agrees_def)
  have range: "n < length (mutexes (shared s))" if "lockMap (shared s) (call_key c) = Some n" for n
    using a that by (simp add: registry_agrees_def)
  show ?thesis
  proof (cases pc)
    case AtStart
    show ?thesis
    proof (cases "lockMapLock (shared s)")
      case True
      then show ?thesis using assms proceed_stutter [OF g] AtStart by simp
    next
      case False
      then have e: "pc' = AtLookup" "l' = (shared s)\<lparr>lockMapLock := True\<rparr>"
        using adv AtStart by auto
      have "registry_exclusive (proceed i s)"
        unfolding step using False AtStart e by (intro registry_exclusive_update [OF r g]) auto
      moreover have "registry_agrees (proceed i s)"
        unfolding step using e by (intro registry_agrees_update [OF a]) auto
      moreover have "mutex_exclusive (proceed i s)"
        unfolding step using e AtStart by (intro mutex_exclusive_same [OF m g]) auto
      ultimately show ?thesis by (simp add: consistent_def)
    qed
  next
    case AtLookup
    show ?thesis unfolding step
      using advance_local [OF adv _ k] AtLookup by (intro consistent_local [OF assms g]) auto
  next
    case AtCreate
    then have e: "pc' = AtInsert (length (mutexes (shared s)))"
      "l' = (shared s)\<lparr>mutexes := mutexes (shared s) @ [False]\<rparr>"
      using adv by auto
    have "registry_exclusive (proceed i s)"
      unfolding step using registry_held [OF r g] AtCreate e
      by (intro registry_exclusive_update [OF r g]) auto
    moreover have "registry_agrees (proceed i s)"
      unfolding step using e k AtCreate by (intro registry_agrees_update [OF a]) auto
    moreover have "mutex_exclusive (proceed i s)"
      unfolding step using e AtCreate holders_in_range [OF a]
      by (intro mutex_exclusive_grow [OF m g]) auto
    ultimately show ?thesis by (simp add: consistent_def)
  next
    case (AtInsert n)
    then have e: "pc' = AtRelease n"
      "l' = (shared s)\<lparr>lockMap := (lockMap (shared s))(call_key c \<mapsto> n)\<rparr>"
      using adv by auto
    have "registry_exclusive (proceed i s)"
      unfolding step using registry_held [OF r g] AtInsert e
      by (intro registry_exclusive_update [OF r g]) auto
    moreover have "registry_agrees (proceed i s)"
      unfolding step e using registry_agrees_insert [OF a r] g AtInsert by simp
    moreover have "mutex_exclusive (proceed i s)"
      unfolding step using e AtInsert by (intro mutex_exclusive_same [OF m g]) auto
    ultimately show ?thesis by (simp add: consistent_def)
  next
    case (AtRelease n)
    then have e: "pc' = AtLock n" "l' = (shared s)\<lparr>lockMapLock := False\<rparr>"
      using adv by auto
    have "registry_exclusive (proceed i s)"
      unfolding step using AtRelease e by (intro registry_exclusive_update [OF r g]) auto
    moreover have "registry_agrees (proceed i s)"
      unfolding step using e k AtRelease by (intro registry_agrees_update [OF a]) auto
    moreover have "mutex_exclusive (proceed i s)"
      unfolding step using e AtRelease by (intro mutex_exclusive_same [OF m g]) auto
    ultimately show ?thesis by (simp add: consistent_def)
  next
    case (AtLock n)
    show ?thesis
    proof (cases "mutex_Lock n (shared s)")
      case None
      then show ?thesis using assms proceed_stutter [OF g] AtLock by simp
    next
      case (Some l2)
      then have e: "pc' = AtRead n" "l' = (shared s)\<lparr>mutexes := (mutexes (shared s))[n := True]\<rparr>"
        and free: "n < length (mutexes (shared s))" "\<not> mutexes (shared s) ! n"
        using adv AtLock by (auto simp: mutex_Lock_def split: if_splits)
      have "registry_exclusive (proceed i s)"
        unfolding step using AtLock e by (intro registry_exclusive_update [OF r g]) auto
      moreover have "registry_agrees (proceed i s)"
        unfolding step using e k AtLock by (intro registry_agrees_update [OF a]) auto
      moreover have "mutex_exclusive (proceed i s)"
        unfolding step using e AtLock free by (intro mutex_exclusive_lock [OF m g]) auto
      ultimately show ?thesis by (simp add: consistent_def)
    qed
  next
    case (AtRead n)
    show ?thesis unfolding step
      using advance_local [OF adv _ k] AtRead by (intro consistent_local [OF assms g]) auto
  next
    case (AtLoad n)
    show ?thesis unfolding step
      using advance_local [OF adv _ k] AtLoad by (intro consistent_local [OF assms g]) auto
  next
    case (AtStore n v)
    show ?thesis unfolding step
      using advance_local [OF adv _ k] AtStore by (intro consistent_local [OF assms g]) auto
  next
    case (AtUnlock n res)
    then have e: "pc' = Finished res" "l' = (shared s)\<lparr>mutexes := (mutexes (shared s))[n := False]\<rparr>"
      using adv by (auto simp: mutex_Unlock_def)
    have n: "n < length (mutexes (shared s))" using k AtUnlock range by simp
    have "registry_exclusive (proceed i s)"
      unfolding step using AtUnlock e by (intro registry_exclusive_update [OF r g]) auto
    moreover have "registry_agrees (proceed i s)"
      unfolding step using e by (intro registry_agrees_update [OF a]) auto
    moreover have "mutex_exclusive (proceed i s)"
      unfolding step using e AtUnlock n by (intro mutex_exclusive_unlock [OF m g]) auto
    ultimately show ?thesis by (simp add: consistent_def)
  next
    case (Finished res)
    then show ?thesis using assms proceed_stutter [OF g] by simp
  qed
qed

lemma consistent_perform: "consistent s \<Longrightarrow> consistent (perform a s)"
  by (cases a) (simp_all add: consistent_step)

lemma consistent_execute: "consistent s \<Longrightarrow> consistent (execute as s)"
  by (induction as arbitrary: s) (simp_all add: consistent_perform del: perform.simps)

lemma registry_agrees_known:
  "registry_agrees s \<Longrightarrow> goroutines s i = Some (c, pc) \<Longrightarrow>
   lock_known (shared s) (call_key c) pc"
  unfolding registry_agrees_def by blast

lemma holds_obtained: "holds pc = Some n \<Longrightarrow> obtained pc = Some n"
  by (cases pc) simp_all

lemma obtained_lock_known:
  "lock_known l key pc \<Longrightarrow> obtained pc = Some n \<Longrightarrow> lockMap l key = Some n"
  by (cases pc) simp_all

subsection \<open>The registry never loses or changes an entry\<close>

lemma advance_lockMap:
  assumes "advance now c pc l = (pc', l')"
  shows "lockMap l' = lockMap l \<or> (\<exists>n. pc = AtInsert n \<and> lockMap l' = (lockMap l)(call_key c \<mapsto> n))"
  using assms
  by (cases pc)
     (auto simp: mutex_Lock_def mutex_Unlock_def
        split: call.splits option.splits if_splits prod.splits sum.splits)

lemma lockMap_proceed:
  assumes "consistent s" and "lockMap (shared s) k = Some n"
  shows "lockMap (shared (proceed i s)) k = Some n"
proof (cases "goroutines s i")
  case None
  then show ?thesis using assms(2) by (simp add: proceed_None)
next
  case (Some x)
  obtain c pc where g: "goroutines s i = Some (c, pc)" using Some by (cases x) simp
  obtain pc' l' where adv: "advance (clock s) c pc (shared s) = (pc', l')" by force
  have a: "registry_agrees s" using assms(1) by (simp add: consistent_def)
  have "lockMap l' k = Some n"
  proof (cases "lockMap l' = lockMap (shared s)")
    case True
    then show ?thesis using assms(2) by simp
  next
    case False
    then obtain m where m: "pc = AtInsert m"
      "lockMap l' = (lockMap (shared s))(call_key c \<mapsto> m)"
      using advance_lockMap [OF adv] by auto
    have "lockMap (shared s) (call_key c) = None"
      using registry_agrees_known [OF a g] m(1) by simp
    then have "k \<noteq> call_key c" using assms(2) by auto
    then show ?thesis using m(2) assms(2) by simp
  qed
  then show ?thesis by (simp add: proceed_Step [OF g adv])
qed

lemma lockMap_perform:
  assumes "consistent s" and "lockMap (shared s) k = Some n"
  shows "lockMap (shared (perform a s)) k = Some n"
  using assms lockMap_proceed [OF assms] by (cases a) simp_all

lemma lockMap_execute:
  "consistent s \<Longrightarrow> lockMap (shared s) k = Some n \<Longrightarrow> lockMap (shared (execute as s)) k = Some n"
proof (induction as arbitrary: s)
  case Nil
  then show ?case by simp
next
  case (Cons a as)
  show ?case
    using Cons.IH [OF consistent_perform [OF Cons.prems(1)] lockMap_perform [OF Cons.prems]]
    by simp
qed

lemma getKeyLockFromMap_lockMap:
  "lockMap l k = Some n \<Longrightarrow> lockMap (snd (getKeyLockFromMap key l)) k = Some n"
  by (auto simp: getKeyLockFromMap_def lookupOrCreate_def Let_def split: option.splits)

lemma apply_op_lockMap:
  assumes "lockMap l k = Some n"
  shows "lockMap (apply_op x l) k = Some n"
proof (cases x)
  case (OpGet key checked stored)
  then show ?thesis using getKeyLockFromMap_lockMap [OF assms, of key]
    by (auto simp: Get_def mutex_Lock_def mutex_Unlock_def Get_locked_def load_def
        split: option.splits prod.splits sum.splits if_splits)
next
  case (OpPut key v now)
  then show ?thesis using getKeyLockFromMap_lockMap [OF assms, of key]
    by (auto simp: Put_def mutex_Lock_def mutex_Unlock_def
        split: option.splits prod.splits if_splits)
qed

lemma run_lockMap: "lockMap l k = Some n \<Longrightarrow> lockMap (run xs l) k = Some n"
  by (induction xs arbitrary: l) (simp_all add: apply_op_lockMap)

lemma same_lock:
  assumes "consistent s" and "goroutines s i = Some (c, pc)" and "goroutines s j = Some (d, q)"
    and "call_key c = call_key d" and "obtained pc = Some a" and "obtained q = Some b"
  shows "a = b \<and> lockMap (shared s) (call_key c) = Some a"
proof -
  have r: "registry_agrees s" using assms(1) by (simp add: consistent_def)
  have "lockMap (shared s) (call_key c) = Some a"
    by (rule obtained_lock_known [OF registry_agrees_known [OF r assms(2)] assms(5)])
  moreover have "lockMap (shared s) (call_key c) = Some b"
    using obtained_lock_known [OF registry_agrees_known [OF r assms(3)] assms(6)] assms(4) by simp
  ultimately show ?thesis by simp
qed

lemmas run_simps =
  contend_def finish_def slow_load_def spawn_def proceed_def on_time_def stale_def
  NewLoadingCache_def mutex_Lock_def mutex_Unlock_def Expired_def

text \<open>
  Claim C8. \<open>getKeyLockFromMap\<close>, when the registry mutex is free, returns the key's
  mutex and changes nothing if the key has one, and otherwise allocates exactly one new
  mutex and registers it. A registry entry, once there, stays the same over any sequence
  of calls, and in every state that concurrent \<open>Get\<close> and \<open>Put\<close> calls started on an
  idle cache can reach, under any schedule. In such a state any two goroutines that have
  been given a mutex for the same key have been given the same one, the one registered.
\<close>

theorem one_lock_per_key:
  "(\<not> lockMapLock l \<longrightarrow>
      getKeyLockFromMap key l =
        (case lockMap l key of
           Some lock \<Rightarrow> (Some lock, l)
         | None \<Rightarrow>
             (Some (length (mutexes l)),
              l\<lparr>mutexes := mutexes l @ [False],
                lockMap := (lockMap l)(key \<mapsto> length (mutexes l))\<rparr>))) \<and>
   (lockMap l k = Some n \<longrightarrow> lockMap (run xs l) k = Some n) \<and>
   (idle l \<and> s = execute schedule (spawn l now cs) \<longrightarrow>
      (lockMap l k = Some n \<longrightarrow> lockMap (shared s) k = Some n) \<and>
      (\<forall>i j c d pc q a b.
         goroutines s i = Some (c, pc) \<and> goroutines s j = Some (d, q) \<and>
         call_key c = call_key d \<and> obtained pc = Some a \<and> obtained q = Some b \<longrightarrow>
         a = b \<and> lockMap (shared s) (call_key c) = Some a))"
proof -
  have 1: "\<not> lockMapLock l \<Longrightarrow>
      getKeyLockFromMap key l =
        (case lockMap l key of
           Some lock \<Rightarrow> (Some lock, l)
         | None \<Rightarrow>
             (Some (length (mutexes l)),
              l\<lparr>mutexes := mutexes l @ [False],
                lockMap := (lockMap l)(key \<mapsto> length (mutexes l))\<rparr>))"
    by (simp add: getKeyLockFromMap_def lookupOrCreate_def Let_def split: option.splits)
  have 3: "consistent s" if "idle l" "s = execute schedule (spawn l now cs)"
    using consistent_execute [OF consistent_spawn [OF that(1)]] that(2) by simp
  have 4: "lockMap (shared s) k = Some n"
    if "idle l" "s = execute schedule (spawn l now cs)" "lockMap l k = Some n"
    using lockMap_execute [OF consistent_spawn [OF that(1)]] that(2,3) by simp
  show ?thesis
    using 1 run_lockMap [of l k n xs] 4 same_lock [OF 3]
    by (simp del: fun_upd_apply) blast
qed

text \<open>
  Claim C8, at a race: a \<open>Get\<close> and a \<open>Put\<close> for key 5, never seen before, both go
  through \<open>getKeyLockFromMap\<close>; one mutex is allocated and both get it.
\<close>

theorem one_lock_per_key_witness:
  "idle demo \<and> lockMap demo 5 = None \<and>
   goroutines (execute registry_race (spawn demo 0 [CallGet 5, CallPut 5 1])) 0 =
     Some (CallGet 5, AtLock 0) \<and>
   goroutines (execute registry_race (spawn demo 0 [CallGet 5, CallPut 5 1])) 1 =
     Some (CallPut 5 1, AtLock 0) \<and>
   lockMap (shared (execute registry_race (spawn demo 0 [CallGet 5, CallPut 5 1]))) 5 = Some 0 \<and>
   mutexes (shared (execute registry_race (spawn demo 0 [CallGet 5, CallPut 5 1]))) = [False] \<and>
   lockMap (run [OpGet 6 0 0] (snd (Get 5 0 0 demo))) 5 = Some 0"
proof -
  let ?s = "execute registry_race (spawn demo 0 [CallGet 5, CallPut 5 1])"
  have g: "goroutines ?s 0 = Some (CallGet 5, AtLock 0)"
    "goroutines ?s 1 = Some (CallPut 5 1, AtLock 0)"
    "mutexes (shared ?s) = [False]"
    by (simp_all add: demo_def registry_race_def run_simps)
  have k: "lockMap (snd (Get 5 0 0 demo)) 5 = Some 0"
    by (simp add: demo_Get) (simp add: register_new demo_def)
  have "lockMap (shared ?s) (call_key (CallGet 5)) = Some 0"
    using one_lock_per_key [where l = demo and s = ?s and schedule = registry_race and now = 0
        and cs = "[CallGet 5, CallPut 5 1]"] g(1,2) idle_demo(1)
    by (simp del: fun_upd_apply) (metis call_key.simps obtained.simps(6))
  moreover have "lockMap (run [OpGet 6 0 0] (snd (Get 5 0 0 demo))) 5 = Some 0"
    using one_lock_per_key [where l = "snd (Get 5 0 0 demo)" and k = 5 and n = 0
        and xs = "[OpGet 6 0 0]"] k
    by blast
  ultimately show ?thesis using g idle_demo(1) by (simp add: demo_def)
qed

subsection \<open>A goroutine running alone\<close>

text \<open>
  The sequential \<open>Get\<close> and \<open>Put\<close> are what one goroutine does when no other runs: from
  an idle cache, the goroutine's steps, with time passing between the loader's return and
  the store, end in the state and with the outcome of the sequential call.
\<close>

lemma spawn_alone: "spawn l now [c] = alone c AtStart now l"
  by (auto simp: spawn_def alone_def fun_eq_iff)

lemma perform_alone:
  "perform (Step 0) (alone c pc now l) =
     alone c (fst (advance now c pc l)) now (snd (advance now c pc l))"
  by (simp add: alone_def proceed_def split: prod.splits)

lemma tick_alone: "perform (Tick d) (alone c pc now l) = alone c pc (now + int d) l"
  by (simp add: alone_def)

lemma stutter_alone:
  "execute (replicate k (Step 0)) (alone c (Finished r) now l) = alone c (Finished r) now l"
  by (induction k) (simp_all add: perform_alone del: perform.simps)

lemmas alone_simps = perform_alone tick_alone stutter_alone

lemma solo_to_read:
  assumes "idle l" and "call_key c = key"
  shows "\<exists>k. \<forall>as. execute (replicate k (Step 0) @ as) (alone c AtStart now l) =
           execute as (alone c (AtRead (fst (lookupOrCreate key l))) now
             ((register key l)\<lparr>mutexes :=
                (mutexes (register key l))[fst (lookupOrCreate key l) := True]\<rparr>))"
proof (cases "lockMap l key")
  case None
  have f: "\<not> lockMapLock l" using assms by (simp add: idle_def)
  have r: "l\<lparr>lockMap := m, lockMapLock := False, mutexes := ms\<rparr> = l\<lparr>lockMap := m, mutexes := ms\<rparr>"
    for m ms using f by (intro loadingCache.equality) simp_all
  have "\<forall>as. execute (replicate 6 (Step 0) @ as) (alone c AtStart now l) =
           execute as (alone c (AtRead (fst (lookupOrCreate key l))) now
             ((register key l)\<lparr>mutexes :=
                (mutexes (register key l))[fst (lookupOrCreate key l) := True]\<rparr>))"
    using None f assms(2)
    by (simp add: r alone_simps numeral_eq_Suc mutex_Lock_def register_new lookupOrCreate_def Let_def
        del: perform.simps)
  then show ?thesis ..
next
  case (Some n)
  have f: "\<not> lockMapLock l" "n < length (mutexes l)" "\<not> mutexes l ! n"
    using assms Some by (auto simp: idle_def ran_def dest: nth_mem)
  have r: "l\<lparr>lockMapLock := False\<rparr> = l" using f(1) by simp
  have r2: "l\<lparr>lockMapLock := False, mutexes := ms\<rparr> = l\<lparr>mutexes := ms\<rparr>"
    for ms using f(1) by (intro loadingCache.equality) simp_all
  have "\<forall>as. execute (replicate 4 (Step 0) @ as) (alone c AtStart now l) =
           execute as (alone c (AtRead (fst (lookupOrCreate key l))) now
             ((register key l)\<lparr>mutexes :=
                (mutexes (register key l))[fst (lookupOrCreate key l) := True]\<rparr>))"
    using Some f assms(2)
    by (simp add: r r2 alone_simps numeral_eq_Suc mutex_Lock_def register_known lookupOrCreate_def
        del: perform.simps)
  then show ?thesis ..
qed

lemma solo_from_read:
  assumes "n < length (mutexes r)" and "\<not> mutexes r ! n"
  shows "\<exists>res. outcome_of (fst (Get_locked key checked (checked + int d) r)) = Some res \<and>
         execute (replicate 2 (Step 0) @ [Tick d] @ replicate 3 (Step 0))
           (alone (CallGet key) (AtRead n) checked (r\<lparr>mutexes := (mutexes r)[n := True]\<rparr>)) =
         alone (CallGet key) (Finished res)
           (checked + int d) (snd (Get_locked key checked (checked + int d) r))"
proof -
  have ms: "(mutexes r)[n := False] = mutexes r"
    using assms(2) by (metis list_update_id)
  show ?thesis
    by (cases "loadingFunc r key (world r)"; cases "fst (loadingFunc r key (world r))")
       (auto simp: alone_simps numeral_eq_Suc Get_locked_def load_def mutex_Unlock_def ms
          split: option.splits simp del: perform.simps)
qed


lemma key_mutex_idle:
  assumes "idle l"
  shows "fst (lookupOrCreate key l) < length (mutexes (register key l))"
    and "\<not> mutexes (register key l) ! fst (lookupOrCreate key l)"
proof -
  show n: "fst (lookupOrCreate key l) < length (mutexes (register key l))"
    using register_lock [OF assms] by simp
  show "\<not> mutexes (register key l) ! fst (lookupOrCreate key l)"
    using idle_register [OF assms, of key] n by (auto simp: idle_def dest: nth_mem)
qed

theorem solo_Get:
  assumes "idle l"
  shows "\<exists>k res. outcome_of (fst (Get key checked (checked + int d) l)) = Some res \<and>
            execute (replicate k (Step 0) @ replicate 2 (Step 0) @ [Tick d] @ replicate 3 (Step 0))
              (spawn l checked [CallGet key]) =
            alone (CallGet key) (Finished res)
              (checked + int d) (snd (Get key checked (checked + int d) l))"
proof -
  obtain k where k: "\<And>as. execute (replicate k (Step 0) @ as) (alone (CallGet key) AtStart checked l) =
      execute as (alone (CallGet key) (AtRead (fst (lookupOrCreate key l))) checked
        ((register key l)\<lparr>mutexes :=
           (mutexes (register key l))[fst (lookupOrCreate key l) := True]\<rparr>))"
    using solo_to_read [OF assms, of "CallGet key" key checked] by auto
  obtain res where res:
    "outcome_of (fst (Get_locked key checked (checked + int d) (register key l))) = Some res"
    "execute (replicate 2 (Step 0) @ [Tick d] @ replicate 3 (Step 0))
       (alone (CallGet key) (AtRead (fst (lookupOrCreate key l))) checked
         ((register key l)\<lparr>mutexes :=
            (mutexes (register key l))[fst (lookupOrCreate key l) := True]\<rparr>)) =
     alone (CallGet key) (Finished res) (checked + int d)
       (snd (Get_locked key checked (checked + int d) (register key l)))"
    using solo_from_read [OF key_mutex_idle [OF assms], of key checked d key] by blast
  have "outcome_of (fst (Get key checked (checked + int d) l)) = Some res \<and>
      execute (replicate k (Step 0) @ replicate 2 (Step 0) @ [Tick d] @ replicate 3 (Step 0))
        (alone (CallGet key) AtStart checked l) =
      alone (CallGet key) (Finished res)
        (checked + int d) (snd (Get key checked (checked + int d) l))"
    unfolding k Get_idle [OF assms] using res by simp
  then show ?thesis unfolding spawn_alone by blast
qed

theorem solo_Put:
  assumes "idle l"
  shows "\<exists>k. execute (replicate k (Step 0) @ replicate 2 (Step 0)) (spawn l now [CallPut key v]) =
            alone (CallPut key v) (Finished Stored) now (snd (Put key v now l))"
proof -
  obtain k where k: "\<And>as. execute (replicate k (Step 0) @ as) (alone (CallPut key v) AtStart now l) =
      execute as (alone (CallPut key v) (AtRead (fst (lookupOrCreate key l))) now
        ((register key l)\<lparr>mutexes :=
           (mutexes (register key l))[fst (lookupOrCreate key l) := True]\<rparr>))"
    using solo_to_read [OF assms, of "CallPut key v" key now] by auto
  have ms: "(mutexes (register key l))[fst (lookupOrCreate key l) := False] = mutexes (register key l)"
    using key_mutex_idle(2) [OF assms, of key] by (metis list_update_id)
  have "execute (replicate 2 (Step 0))
      (alone (CallPut key v) (AtRead (fst (lookupOrCreate key l))) now
        ((register key l)\<lparr>mutexes :=
           (mutexes (register key l))[fst (lookupOrCreate key l) := True]\<rparr>)) =
      alone (CallPut key v) (Finished Stored) now (snd (Put key v now l))"
    by (simp add: alone_simps numeral_eq_Suc mutex_Unlock_def ms Put_idle [OF assms]
        del: perform.simps)
  then have "execute (replicate k (Step 0) @ replicate 2 (Step 0))
      (alone (CallPut key v) AtStart now l) =
      alone (CallPut key v) (Finished Stored) now (snd (Put key v now l))"
    unfolding k .
  then show ?thesis unfolding spawn_alone by blast
qed

subsection \<open>Calls for one key never collide\<close>

lemma one_key_perform: "one_key key s \<Longrightarrow> one_key key (perform a s)"
  by (cases a) (auto simp: one_key_def proceed_def split: option.splits prod.splits if_splits)

lemma one_key_execute: "one_key key s \<Longrightarrow> one_key key (execute as s)"
  by (induction as arbitrary: s) (simp_all add: one_key_perform del: perform.simps)

lemma sole_holder:
  assumes "consistent s" and "one_key key s"
    and "goroutines s i = Some (c, pc)" and "holds pc = Some n"
    and "goroutines s j = Some (d, q)" and "j \<noteq> i"
  shows "holds q = None"
proof (rule ccontr)
  assume "holds q \<noteq> None"
  then obtain m where m: "holds q = Some m" by auto
  have a: "registry_agrees s" and x: "mutex_exclusive s"
    using assms(1) by (simp_all add: consistent_def)
  have k: "call_key c = key" "call_key d = key"
    using assms(2,3,5) unfolding one_key_def by blast+
  have lk: "lock_known (shared s) key pc" "lock_known (shared s) key q"
    using registry_agrees_known [OF a assms(3)] registry_agrees_known [OF a assms(5)] k
    by simp_all
  have "lockMap (shared s) key = Some n"
    by (rule obtained_lock_known [OF lk(1) holds_obtained [OF assms(4)]])
  moreover have "lockMap (shared s) key = Some m"
    by (rule obtained_lock_known [OF lk(2) holds_obtained [OF m]])
  ultimately have "m = n" by simp
  then have "i \<in> holders s n" "j \<in> holders s n"
    using holders_iff [OF assms(3)] holders_iff [OF assms(5)] assms(4) m by simp_all
  then show False using x assms(6) by (auto simp: mutex_exclusive_def)
qed

text \<open>
  Goroutines working on one key never collide: the fatal error of the runtime cannot
  occur, and the program keeps running.
\<close>

lemma no_collision:
  assumes "consistent s" and "one_key key s"
  shows "\<not> collide s i j"
proof
  assume "collide s i j"
  then obtain c pc d q where g: "goroutines s i = Some (c, pc)" "writes_store c pc"
    "goroutines s j = Some (d, q)" "touches_store q" "j \<noteq> i"
    by (auto simp: collide_def split: option.splits)
  obtain n where "holds pc = Some n" using g(2) by (cases pc) simp_all
  from sole_holder [OF assms g(1) this g(3,5)] have "holds q = None" .
  then show False using g(4) by (cases q) simp_all
qed

lemma safe_perform:
  assumes "consistent s" and "one_key key s" and "\<not> crashed s"
  shows "\<not> crashed (perform a s)"
  using assms(3) no_collision [OF assms(1,2)] by (cases a) simp_all

lemma safe_execute:
  "consistent s \<Longrightarrow> one_key key s \<Longrightarrow> \<not> crashed s \<Longrightarrow> \<not> crashed (execute as s)"
proof (induction as arbitrary: s)
  case Nil
  then show ?case by simp
next
  case (Cons a as)
  show ?case
    using Cons.IH [OF consistent_perform [OF Cons.prems(1)] one_key_perform [OF Cons.prems(2)]
        safe_perform [OF Cons.prems]]
    by simp
qed

lemma one_key_spawn: "\<forall>c \<in> set cs. call_key c = key \<Longrightarrow> one_key key (spawn l now cs)"
  by (auto simp: one_key_def split: if_splits)

text \<open>
  Goroutines working on different keys can: a \<open>Put\<close> for key 5 and a \<open>Put\<close> for key 6,
  each holding the mutex of its key, are both about to write \<open>dataMap\<close>, and the runtime
  may end the program.
\<close>

lemma two_keys_collide:
  "goroutines (execute two_keys (spawn demo 0 [CallPut 5 1, CallPut 6 2])) 0 =
     Some (CallPut 5 1, AtRead 0) \<and>
   goroutines (execute two_keys (spawn demo 0 [CallPut 5 1, CallPut 6 2])) 1 =
     Some (CallPut 6 2, AtRead 1) \<and>
   collide (execute two_keys (spawn demo 0 [CallPut 5 1, CallPut 6 2])) 0 1 \<and>
   crashed (execute (two_keys @ [Fatal 0 1]) (spawn demo 0 [CallPut 5 1, CallPut 6 2]))"
  by (simp add: two_keys_def demo_def spawn_def proceed_def collide_def NewLoadingCache_def
      mutex_Lock_def)

text \<open>
  Claim C10. Over any sequence of \<open>Get\<close> and \<open>Put\<close> calls, from any state of the cache,
  every key that has an entry keeps one. The same holds in every state that concurrent
  \<open>Get\<close> and \<open>Put\<close> calls for one key, started on an idle cache, can reach under any
  schedule, and there the program is still running. In a sequence of calls the entry of a
  key stays as it is, value and expiration, through all calls for other keys; and a single
  call changes a key's entry only if it is a \<open>Put\<close> for that key or a \<open>Get\<close> for that key
  that invoked the loader and returned a value.
\<close>

theorem dataMap_never_shrinks:
  "dom (dataMap l) \<subseteq> dom (dataMap (run xs l)) \<and>
   (idle l \<and> (\<forall>c \<in> set cs. call_key c = k) \<longrightarrow>
      \<not> crashed (execute schedule (spawn l now cs)) \<and>
      dom (dataMap l) \<subseteq> dom (dataMap (shared (execute schedule (spawn l now cs))))) \<and>
   ((\<forall>x \<in> set xs. op_key x \<noteq> key) \<longrightarrow> dataMap (run xs l) key = dataMap l key) \<and>
   (dataMap (apply_op x l) key \<noteq> dataMap l key \<longrightarrow>
      (\<exists>v now. x = OpPut key v now) \<or>
      (\<exists>checked stored v. x = OpGet key checked stored \<and>
         fst (Get key checked stored l) = Inr v \<and> calls (apply_op x l) = calls l @ [key]))"
proof -
  have "\<not> crashed (execute schedule (spawn l now cs))"
    if "idle l" "\<forall>c \<in> set cs. call_key c = k"
    by (rule safe_execute [OF consistent_spawn [OF that(1)] one_key_spawn [OF that(2)]]) simp
  moreover have "dom (dataMap l) \<subseteq> dom (dataMap (shared (execute schedule (spawn l now cs))))"
    using execute_dataMap_dom [of "spawn l now cs" schedule] by simp
  ultimately show ?thesis
    using run_dataMap_dom [of l xs] run_dataMap_other [of xs key l]
      apply_op_dataMap_change [of x l key]
    by blast
qed

text \<open>
  Claim C10, at the scenario's cache: the expired entry of key 5 stays, with its value
  and expiration, through a \<open>Get\<close> and a \<open>Put\<close> for key 6 at time 150, and a \<open>Put\<close> for
  key 5 changes it; and a \<open>Get\<close> and a \<open>Put\<close> for key 5 that run concurrently on the new
  cache do not end in a fatal error.
\<close>

theorem dataMap_never_shrinks_witness:
  "op_key (OpGet 6 150 150 :: (int, int) op) \<noteq> 5 \<and>
   op_key (OpPut 6 1 150 :: (int, int) op) \<noteq> 5 \<and>
   Expired \<lparr>Value = (10::int), Expiration = 100\<rparr> 150 \<and>
   dataMap (run [OpGet 6 150 150, OpPut 6 1 150] (snd (Get 5 0 0 demo))) 5 =
     Some \<lparr>Value = 10, Expiration = 100\<rparr> \<and>
   dataMap (apply_op (OpPut 5 1 150) (snd (Get 5 0 0 demo))) 5 \<noteq>
     dataMap (snd (Get 5 0 0 demo)) 5 \<and>
   idle demo \<and> call_key (CallGet 5 :: (int, int) call) = 5 \<and>
   call_key (CallPut 5 1 :: (int, int) call) = 5 \<and>
   \<not> crashed (execute registry_race (spawn demo 0 [CallGet 5, CallPut 5 1]))"
  using dataMap_never_shrinks [where l = "snd (Get 5 0 0 demo)"
      and xs = "[OpGet 6 150 150, OpPut 6 1 150]" and key = 5 and x = "OpPut 5 1 150"
      and cs = "[]"]
    dataMap_never_shrinks [where l = demo and cs = "[CallGet 5, CallPut 5 1]" and k = 5
      and schedule = registry_race and now = 0]
  by (simp add: Put_fields [OF idle_Get [OF idle_demo(1)]] Expired_def idle_demo)
     (simp add: demo_Get)

subsection \<open>One load for concurrent \<open>Get\<close> calls\<close>

lemma all_getD: "all_get key s \<Longrightarrow> goroutines s i = Some (c, pc) \<Longrightarrow> c = CallGet key"
  unfolding all_get_def by blast

lemma all_get_one_key: "all_get key s \<Longrightarrow> one_key key s"
  unfolding all_get_def one_key_def by (metis call_key.simps(1))

lemma all_get_perform: "all_get key s \<Longrightarrow> all_get key (perform a s)"
  by (cases a) (auto simp: all_get_def proceed_def split: option.splits prod.splits if_splits)

lemma advance_config:
  "advance now c pc l = (pc', l') \<Longrightarrow>
   loadingFunc l' = loadingFunc l \<and> cacheDuration l' = cacheDuration l"
  by (cases pc)
     (auto simp: mutex_Lock_def mutex_Unlock_def
        split: call.splits option.splits if_splits prod.splits sum.splits)

lemma same_config_proceed: "same_config l0 s \<Longrightarrow> same_config l0 (proceed i s)"
proof (cases "goroutines s i")
  case None
  assume "same_config l0 s"
  then show ?thesis using None by (simp add: proceed_None)
next
  case (Some x)
  assume c: "same_config l0 s"
  obtain d pc where g: "goroutines s i = Some (d, pc)" using Some by (cases x) simp
  obtain pc' l' where adv: "advance (clock s) d pc (shared s) = (pc', l')" by force
  show ?thesis using c advance_config [OF adv] by (simp add: proceed_Step [OF g adv] same_config_def)
qed

lemma same_config_fields [simp]:
  "same_config l0 (s\<lparr>clock := t\<rparr>) = same_config l0 s"
  "same_config l0 (s\<lparr>crashed := b\<rparr>) = same_config l0 s"
  by (simp_all add: same_config_def)

lemma same_config_perform: "same_config l0 s \<Longrightarrow> same_config l0 (perform a s)"
  by (cases a) (simp_all add: same_config_proceed)


lemma waiting_outside: "waiting q \<Longrightarrow> holds q = None \<Longrightarrow> outside q"
  by (cases q) simp_all

lemma outside_served: "outside q \<Longrightarrow> served v q"
  by (cases q) simp_all

lemma outside_holds: "outside q \<Longrightarrow> holds q = None"
  by (cases q) simp_all

lemma advance_outside:
  assumes "advance now c pc l = (pc', l')" and "outside pc"
  shows "calls l' = calls l \<and> world l' = world l \<and> dataMap l' = dataMap l \<and>
         waiting pc' \<and> served v pc' \<and> ((\<forall>n. pc \<noteq> AtLock n) \<longrightarrow> outside pc')"
  using assms
  by (cases pc) (auto simp: mutex_Lock_def split: option.splits if_splits)

lemma pcs_update:
  assumes "\<And>j d q. goroutines s j = Some (d, q) \<Longrightarrow> j \<noteq> i \<Longrightarrow> P q" and "P pc'"
  shows "\<forall>j d q. goroutines (s\<lparr>shared := l', goroutines := (goroutines s)(i \<mapsto> (c, pc'))\<rparr>) j =
           Some (d, q) \<longrightarrow> P q"
  using assms by (auto split: if_splits)

lemma blocked:
  assumes "consistent s" and "one_key key s"
    and "goroutines s h = Some (d, q)" and "holds q = Some m"
    and "goroutines s i = Some (c, AtLock n)"
  shows "mutex_Lock n (shared s) = None"
proof -
  have a: "registry_agrees s" and x: "mutex_exclusive s"
    using assms(1) by (simp_all add: consistent_def)
  have k: "call_key c = key" "call_key d = key"
    using assms(2,3,5) unfolding one_key_def by blast+
  have "lockMap (shared s) key = Some m"
    using obtained_lock_known [OF registry_agrees_known [OF a assms(3)] holds_obtained [OF assms(4)]] k
    by simp
  moreover have "lockMap (shared s) key = Some n"
    using registry_agrees_known [OF a assms(5)] k by simp
  ultimately have mn: "m = n" by simp
  have h: "h \<in> holders s n" using holders_iff [OF assms(3)] assms(4) mn by simp
  then have "n < length (mutexes (shared s))" by (rule holders_in_range [OF a])
  then have "mutexes (shared s) ! n" using x h by (auto simp: mutex_exclusive_def)
  then show ?thesis by (simp add: mutex_Lock_def)
qed

lemma not_loaded_step:
  assumes "consistent s" and "all_get key s" and "same_config l0 s" and "not_loaded l0 key s"
    and "stale l0 key t0" and "t0 \<le> clock s" and "loadingFunc l0 key (world l0) = (Inr v, w)"
  shows "not_loaded l0 key (proceed i s) \<or> loading l0 key v w (proceed i s)"
proof (cases "goroutines s i")
  case None
  then show ?thesis using assms(4) by (simp add: proceed_None)
next
  case (Some x)
  obtain c pc where g: "goroutines s i = Some (c, pc)" using Some by (cases x) simp
  obtain pc' l' where adv: "advance (clock s) c pc (shared s) = (pc', l')" by force
  let ?s = "s\<lparr>shared := l', goroutines := (goroutines s)(i \<mapsto> (c, pc'))\<rparr>"
  have step: "proceed i s = ?s" by (rule proceed_Step [OF g adv])
  have c: "c = CallGet key" by (rule all_getD [OF assms(2) g])
  have k1: "one_key key s" by (rule all_get_one_key [OF assms(2)])
  have d: "calls (shared s) = calls l0" "world (shared s) = world l0"
    "dataMap (shared s) key = dataMap l0 key"
    and w: "\<And>j d q. goroutines s j = Some (d, q) \<Longrightarrow> waiting q"
    using assms(4) unfolding not_loaded_def by blast+
  have st: "stale (shared s) key (clock s)"
    using stale_mono [OF assms(5,6)] d(3) by (simp add: stale_def)
  have "not_loaded l0 key ?s \<or> loading l0 key v w ?s"
  proof (cases "outside pc")
    case True
    note o = advance_outside [OF adv True, of v]
    have "\<forall>j d q. goroutines ?s j = Some (d, q) \<longrightarrow> waiting q"
      by (rule pcs_update) (use w o in blast)+
    then have "not_loaded l0 key ?s"
      unfolding not_loaded_def using o d by simp
    then show ?thesis ..
  next
    case False
    then consider n where "pc = AtRead n" | n where "pc = AtLoad n"
      using w [OF g] by (cases pc) simp_all
    then show ?thesis
    proof cases
      case 1
      then have e: "pc' = AtLoad n" "l' = shared s"
        using adv c st by (auto simp: stale_def split: option.splits if_splits)
      have "\<forall>j d q. goroutines ?s j = Some (d, q) \<longrightarrow> waiting q"
        by (rule pcs_update) (use w e in auto)
      then have "not_loaded l0 key ?s"
        unfolding not_loaded_def using e d by simp
      then show ?thesis ..
    next
      case 2
      have f: "loadingFunc (shared s) key (world (shared s)) = (Inr v, w)"
        using assms(3,7) d(2) by (simp add: same_config_def)
      have e: "pc' = AtStore n v" "l' = (shared s)\<lparr>world := w, calls := calls (shared s) @ [key]\<rparr>"
        using adv c 2 f by auto
      have others: "outside q \<or> (\<exists>n. q = AtStore n v)"
        if "goroutines s j = Some (d, q)" "j \<noteq> i" for j d q
        using waiting_outside [OF w [OF that(1)]]
          sole_holder [OF assms(1) k1 g _ that] 2 by simp
      have "\<forall>j d q. goroutines ?s j = Some (d, q) \<longrightarrow> outside q \<or> (\<exists>n. q = AtStore n v)"
        by (rule pcs_update) (use others e in auto)
      moreover have "goroutines ?s i = Some (c, AtStore n v)"
        using e by simp
      ultimately have "loading l0 key v w ?s"
        unfolding loading_def using d e by (simp del: fun_upd_apply) blast
      then show ?thesis ..
    qed
  qed
  then show ?thesis unfolding step .
qed


lemma loading_step:
  assumes "consistent s" and "all_get key s" and "same_config l0 s" and "loading l0 key v w s"
  shows "loading l0 key v w (proceed i s) \<or>
         loaded l0 key v w (clock s + cacheDuration l0) (proceed i s)"
proof (cases "goroutines s i")
  case None
  then show ?thesis using assms(4) by (simp add: proceed_None)
next
  case (Some x)
  obtain c pc where g: "goroutines s i = Some (c, pc)" using Some by (cases x) simp
  obtain pc' l' where adv: "advance (clock s) c pc (shared s) = (pc', l')" by force
  let ?s = "s\<lparr>shared := l', goroutines := (goroutines s)(i \<mapsto> (c, pc'))\<rparr>"
  have step: "proceed i s = ?s" by (rule proceed_Step [OF g adv])
  have c: "c = CallGet key" by (rule all_getD [OF assms(2) g])
  have k1: "one_key key s" by (rule all_get_one_key [OF assms(2)])
  have d: "calls (shared s) = calls l0 @ [key]" "world (shared s) = w"
    "dataMap (shared s) key = dataMap l0 key"
    and o: "\<And>j d q. goroutines s j = Some (d, q) \<Longrightarrow> outside q \<or> (\<exists>n. q = AtStore n v)"
    using assms(4) unfolding loading_def by blast+
  obtain h ch nh where h: "goroutines s h = Some (ch, AtStore nh v)"
    using assms(4) unfolding loading_def by blast
  have "loading l0 key v w ?s \<or> loaded l0 key v w (clock s + cacheDuration l0) ?s"
  proof (cases "outside pc")
    case True
    then have ih: "i \<noteq> h" using g h by auto
    show ?thesis
    proof (cases "\<exists>n. pc = AtLock n")
      case True
      then obtain n where n: "pc = AtLock n" ..
      have "mutex_Lock n (shared s) = None"
        using blocked [OF assms(1) k1 h _ g [unfolded n]] by simp
      then have "advance (clock s) c pc (shared s) = (pc, shared s)" using n by simp
      then have "proceed i s = s" by (rule proceed_stutter [OF g])
      then have "?s = s" using step by simp
      then show ?thesis using assms(4) by simp
    next
      case False
      note a = advance_outside [OF adv True, of v]
      have "\<forall>j d q. goroutines ?s j = Some (d, q) \<longrightarrow> outside q \<or> (\<exists>n. q = AtStore n v)"
        by (rule pcs_update) (use o a False in blast)+
      moreover have "goroutines ?s h = Some (ch, AtStore nh v)"
        using h ih by simp
      ultimately have "loading l0 key v w ?s"
        unfolding loading_def using d a by (simp del: fun_upd_apply) blast
      then show ?thesis ..
    qed
  next
    case False
    then obtain n where n: "pc = AtStore n v" using o [OF g] by auto
    have cfg: "cacheDuration (shared s) = cacheDuration l0"
      using assms(3) by (simp add: same_config_def)
    have e: "pc' = AtUnlock n (Returned v)"
      "l' = (shared s)\<lparr>dataMap := (dataMap (shared s))(key \<mapsto>
          \<lparr>Value = v, Expiration = clock s + cacheDuration l0\<rparr>)\<rparr>"
      using adv c n cfg by auto
    have others: "served v q" if "goroutines s j = Some (d, q)" "j \<noteq> i" for j d q
    proof -
      have "holds q = None" using sole_holder [OF assms(1) k1 g _ that] n by simp
      then have "outside q" using o [OF that(1)] by auto
      then show ?thesis by (rule outside_served)
    qed
    have "\<forall>j d q. goroutines ?s j = Some (d, q) \<longrightarrow> served v q"
      by (rule pcs_update) (use others e in auto)
    then have "loaded l0 key v w (clock s + cacheDuration l0) ?s"
      unfolding loaded_def using d e by (simp del: fun_upd_apply) simp
    then show ?thesis ..
  qed
  then show ?thesis unfolding step .
qed

lemma advance_served:
  assumes "advance now (CallGet key) pc l = (pc', l')" and "served v pc"
    and "dataMap l key = Some \<lparr>Value = v, Expiration = e\<rparr>" and "at_read pc \<longrightarrow> now \<le> e"
  shows "calls l' = calls l \<and> world l' = world l \<and> dataMap l' = dataMap l \<and> served v pc'"
  using assms
  by (cases pc)
     (auto simp: mutex_Lock_def mutex_Unlock_def Expired_def split: option.splits if_splits)

lemma loaded_step:
  assumes "all_get key s" and "loaded l0 key v w bound s" and "on_time l0 key (Step i) s"
  shows "loaded l0 key v w bound (proceed i s)"
proof (cases "goroutines s i")
  case None
  then show ?thesis using assms(2) by (simp add: proceed_None)
next
  case (Some x)
  obtain c pc where g: "goroutines s i = Some (c, pc)" using Some by (cases x) simp
  obtain pc' l' where adv: "advance (clock s) c pc (shared s) = (pc', l')" by force
  let ?s = "s\<lparr>shared := l', goroutines := (goroutines s)(i \<mapsto> (c, pc'))\<rparr>"
  have step: "proceed i s = ?s" by (rule proceed_Step [OF g adv])
  have c: "c = CallGet key" by (rule all_getD [OF assms(1) g])
  have d: "calls (shared s) = calls l0 @ [key]" "world (shared s) = w"
    and sv: "\<And>j d q. goroutines s j = Some (d, q) \<Longrightarrow> served v q"
    using assms(2) unfolding loaded_def by blast+
  obtain e where e: "dataMap (shared s) key = Some \<lparr>Value = v, Expiration = e\<rparr>" "bound \<le> e"
    using assms(2) unfolding loaded_def by blast
  have "at_read pc \<longrightarrow> clock s \<le> e"
    using assms(3) g d(1) e(1) by (auto simp: on_time_def stale_def Expired_def)
  note a = advance_served [OF adv [unfolded c] sv [OF g] e(1) this]
  have "\<forall>j d q. goroutines ?s j = Some (d, q) \<longrightarrow> served v q"
    by (rule pcs_update) (use sv a in blast)+
  then have "loaded l0 key v w bound ?s"
    unfolding loaded_def using d e a by (simp del: fun_upd_apply)
  then show ?thesis unfolding step .
qed

lemma loaded_mono: "loaded l0 key v w bound s \<Longrightarrow> b \<le> bound \<Longrightarrow> loaded l0 key v w b s"
  unfolding loaded_def by force

lemma loaded_rebound:
  "loaded l0 key v w bound s \<Longrightarrow> \<not> stale (shared s) key t \<Longrightarrow> loaded l0 key v w t s"
  unfolding loaded_def by (auto simp: stale_def Expired_def)

lemma phase_tick [simp]:
  "not_loaded l0 key (s\<lparr>clock := t\<rparr>) = not_loaded l0 key s"
  "loading l0 key v w (s\<lparr>clock := t\<rparr>) = loading l0 key v w s"
  "loaded l0 key v w b (s\<lparr>clock := t\<rparr>) = loaded l0 key v w b s"
  "all_get key (s\<lparr>clock := t\<rparr>) = all_get key s"
  by (simp_all add: not_loaded_def loading_def loaded_def all_get_def)

text \<open>The lookups that are on time, stage by stage.\<close>

lemma not_loaded_on_time: "not_loaded l0 key s \<Longrightarrow> on_time l0 key a s"
  by (auto simp: on_time_def not_loaded_def split: action.splits option.splits)

lemma loading_on_time: "loading l0 key v w s \<Longrightarrow> on_time l0 key a s"
proof (cases a)
  case (Step i)
  assume l: "loading l0 key v w s"
  have "\<not> at_read pc" if "goroutines s i = Some (c, pc)" for c pc
  proof -
    have "outside pc \<or> (\<exists>n. pc = AtStore n v)" using l that unfolding loading_def by blast
    then show ?thesis by (cases pc) auto
  qed
  then show ?thesis using Step by (auto simp: on_time_def split: option.splits)
qed (simp_all add: on_time_def)

lemma loaded_on_time:
  assumes "loaded l0 key v w bound s" and "clock s \<le> bound"
  shows "on_time l0 key a s"
proof -
  have "\<not> stale (shared s) key (clock s)"
    using assms unfolding loaded_def by (auto simp: stale_def Expired_def)
  then show ?thesis by (auto simp: on_time_def split: action.splits option.splits)
qed

lemma single_flight_perform:
  assumes "single_flight l0 key v w t0 s" and "stale l0 key t0"
    and "loadingFunc l0 key (world l0) = (Inr v, w)" and "on_time l0 key a s"
  shows "single_flight l0 key v w t0 (perform a s)"
proof -
  have c: "consistent s" and g: "all_get key s" and f: "same_config l0 s"
    and x: "\<not> crashed s" and t: "t0 \<le> clock s"
    and p: "not_loaded l0 key s \<or> loading l0 key v w s \<or>
      loaded l0 key v w (t0 + cacheDuration l0) s"
    using assms(1) by (simp_all add: single_flight_def)
  show ?thesis
  proof (cases a)
    case (Tick d)
    then show ?thesis using assms(1) by (simp add: single_flight_def)
  next
    case (Fatal i j)
    then have "perform a s = s" using no_collision [OF c all_get_one_key [OF g]] by simp
    then show ?thesis using assms(1) by simp
  next
    case (Step i)
    have e: "perform a s = proceed i s" using Step x by simp
    have base: "consistent (proceed i s)" "all_get key (proceed i s)"
      "same_config l0 (proceed i s)"
      using consistent_perform [OF c, of a] all_get_perform [OF g, of a]
        same_config_perform [OF f, of a]
      unfolding e by simp_all
    have "not_loaded l0 key (proceed i s) \<or> loading l0 key v w (proceed i s) \<or>
        loaded l0 key v w (t0 + cacheDuration l0) (proceed i s)"
      using p
    proof (elim disjE)
      assume "not_loaded l0 key s"
      then show ?thesis using not_loaded_step [OF c g f _ assms(2) t assms(3), of i] by blast
    next
      assume "loading l0 key v w s"
      then show ?thesis
        using loading_step [OF c g f, of v w i] loaded_mono [of l0 key v w _ _ "t0 + cacheDuration l0"] t
        by fastforce
    next
      assume "loaded l0 key v w (t0 + cacheDuration l0) s"
      then show ?thesis using loaded_step [OF g _ assms(4) [unfolded Step]] by blast
    qed
    then show ?thesis unfolding e using base x t by (simp add: single_flight_def)
  qed
qed

lemma single_flight_execute:
  assumes "stale l0 key t0" and "loadingFunc l0 key (world l0) = (Inr v, w)"
  shows "single_flight l0 key v w t0 s \<Longrightarrow> timely l0 key as s \<Longrightarrow>
         single_flight l0 key v w t0 (execute as s)"
proof (induction as arbitrary: s)
  case Nil
  then show ?case by simp
next
  case (Cons a as)
  have o: "on_time l0 key a s" and r: "timely l0 key as (perform a s)"
    using Cons.prems(2) by simp_all
  show ?case
    using Cons.IH [OF single_flight_perform [OF Cons.prems(1) assms o] r] by simp
qed

lemma single_flight_spawn:
  assumes "idle l"
  shows "single_flight l key v w now (spawn l now (replicate n (CallGet key)))"
proof -
  have "not_loaded l key (spawn l now (replicate n (CallGet key)))"
    by (auto simp: not_loaded_def split: if_splits)
  moreover have "all_get key (spawn l now (replicate n (CallGet key)))"
    by (auto simp: all_get_def split: if_splits)
  ultimately show ?thesis
    using consistent_spawn [OF assms] by (simp add: single_flight_def same_config_def)
qed

lemma single_flight_result:
  assumes "single_flight l0 key v w t0 s"
  shows "(calls (shared s) = calls l0 \<or> calls (shared s) = calls l0 @ [key]) \<and>
         (\<forall>i c r. goroutines s i = Some (c, Finished r) \<longrightarrow>
            r = Returned v \<and> calls (shared s) = calls l0 @ [key])"
proof -
  consider "not_loaded l0 key s" | "loading l0 key v w s"
    | "loaded l0 key v w (t0 + cacheDuration l0) s"
    using assms by (auto simp: single_flight_def)
  then show ?thesis
  proof cases
    case 1
    then have "calls (shared s) = calls l0" and "\<And>j d q. goroutines s j = Some (d, q) \<Longrightarrow> waiting q"
      unfolding not_loaded_def by blast+
    then show ?thesis by fastforce
  next
    case 2
    then have "calls (shared s) = calls l0 @ [key]"
      and "\<And>j d q. goroutines s j = Some (d, q) \<Longrightarrow> outside q \<or> (\<exists>n. q = AtStore n v)"
      unfolding loading_def by blast+
    then show ?thesis by fastforce
  next
    case 3
    then have "calls (shared s) = calls l0 @ [key]"
      and "\<And>j d q. goroutines s j = Some (d, q) \<Longrightarrow> served v q"
      unfolding loaded_def by blast+
    then show ?thesis by fastforce
  qed
qed

subsection \<open>Schedules that are timely\<close>

lemma execute_append: "execute (as @ bs) s = execute bs (execute as s)"
  by (induction as arbitrary: s) simp_all

lemma timely_append:
  "timely l0 key (as @ bs) s \<longleftrightarrow> timely l0 key as s \<and> timely l0 key bs (execute as s)"
  by (induction as arbitrary: s) (simp_all del: perform.simps)

lemma clock_perform: "clock s \<le> clock (perform a s)"
  by (cases a) simp_all

lemma clock_execute: "clock s \<le> clock (execute as s)"
proof (induction as arbitrary: s)
  case Nil
  show ?case by simp
next
  case (Cons a as)
  show ?case using clock_perform [of s a] Cons.IH [of "perform a s"] by simp
qed

text \<open>While the clock is at most the TTL after the start, every lookup is on time.\<close>

lemma single_flight_on_time:
  assumes "single_flight l0 key v w t0 s" and "clock s \<le> t0 + cacheDuration l0"
  shows "on_time l0 key a s"
proof -
  consider "not_loaded l0 key s" | "loading l0 key v w s"
    | "loaded l0 key v w (t0 + cacheDuration l0) s"
    using assms(1) by (auto simp: single_flight_def)
  then show ?thesis
  proof cases
    case 1
    then show ?thesis by (rule not_loaded_on_time)
  next
    case 2
    then show ?thesis by (rule loading_on_time)
  next
    case 3
    then show ?thesis using assms(2) by (rule loaded_on_time)
  qed
qed

lemma within_ttl_timely:
  assumes "stale l0 key t0" and "loadingFunc l0 key (world l0) = (Inr v, w)"
  shows "single_flight l0 key v w t0 s \<Longrightarrow> clock (execute as s) \<le> t0 + cacheDuration l0 \<Longrightarrow>
         timely l0 key as s"
proof (induction as arbitrary: s)
  case Nil
  show ?case by simp
next
  case (Cons a as)
  have "clock s \<le> clock (execute as (perform a s))"
    using clock_perform [of s a] clock_execute [of "perform a s" as] by simp
  then have "clock s \<le> t0 + cacheDuration l0" using Cons.prems(2) by simp
  then have o: "on_time l0 key a s" by (rule single_flight_on_time [OF Cons.prems(1)])
  have "timely l0 key as (perform a s)"
    using Cons.IH [OF single_flight_perform [OF Cons.prems(1) assms o]] Cons.prems(2) by simp
  then show ?case using o by simp
qed

text \<open>
  With a TTL that is not negative, from a state where the entry, once stored, is not
  expired, every lookup taken while no time passes is on time.
\<close>

lemma fresh_step:
  assumes "single_flight l0 key v w t0 s" and "stale l0 key t0"
    and "loadingFunc l0 key (world l0) = (Inr v, w)" and "0 \<le> cacheDuration l0"
    and "not_loaded l0 key s \<or> loading l0 key v w s \<or> loaded l0 key v w (clock s) s"
  shows "on_time l0 key (Step i) s"
    and "not_loaded l0 key (perform (Step i) s) \<or> loading l0 key v w (perform (Step i) s) \<or>
         loaded l0 key v w (clock (perform (Step i) s)) (perform (Step i) s)"
proof -
  have c: "consistent s" and g: "all_get key s" and f: "same_config l0 s"
    and x: "\<not> crashed s" and t: "t0 \<le> clock s"
    using assms(1) by (simp_all add: single_flight_def)
  show o: "on_time l0 key (Step i) s"
    using assms(5)
  proof (elim disjE)
    assume "not_loaded l0 key s"
    then show ?thesis by (rule not_loaded_on_time)
  next
    assume "loading l0 key v w s"
    then show ?thesis by (rule loading_on_time)
  next
    assume "loaded l0 key v w (clock s) s"
    then show ?thesis by (rule loaded_on_time) simp
  qed
  have "not_loaded l0 key (proceed i s) \<or> loading l0 key v w (proceed i s) \<or>
      loaded l0 key v w (clock s) (proceed i s)"
    using assms(5)
  proof (elim disjE)
    assume "not_loaded l0 key s"
    then show ?thesis using not_loaded_step [OF c g f _ assms(2) t assms(3), of i] by blast
  next
    assume "loading l0 key v w s"
    then show ?thesis
      using loading_step [OF c g f, of v w i] loaded_mono [of l0 key v w _ _ "clock s"] assms(4)
      by fastforce
  next
    assume "loaded l0 key v w (clock s) s"
    then show ?thesis using loaded_step [OF g _ o] by blast
  qed
  then show "not_loaded l0 key (perform (Step i) s) \<or> loading l0 key v w (perform (Step i) s) \<or>
      loaded l0 key v w (clock (perform (Step i) s)) (perform (Step i) s)"
    using x by simp
qed

lemma fresh_timely:
  assumes "stale l0 key t0" and "loadingFunc l0 key (world l0) = (Inr v, w)"
    and "0 \<le> cacheDuration l0"
  shows "single_flight l0 key v w t0 s \<Longrightarrow>
         not_loaded l0 key s \<or> loading l0 key v w s \<or> loaded l0 key v w (clock s) s \<Longrightarrow>
         list_all is_step rest \<Longrightarrow> timely l0 key rest s"
proof (induction rest arbitrary: s)
  case Nil
  show ?case by simp
next
  case (Cons a rest)
  obtain i where a: "a = Step i" using Cons.prems(3) by (cases a) simp_all
  note fs = fresh_step [OF Cons.prems(1) assms Cons.prems(2), of i]
  have "timely l0 key rest (perform a s)"
    using Cons.IH [OF single_flight_perform [OF Cons.prems(1) assms(1,2) fs(1)] fs(2)]
      Cons.prems(3) a
    by simp
  then show ?case using fs(1) a by simp
qed

text \<open>
  A lookup that is not on time is followed by another invocation of the loader: the
  goroutine finds the entry expired and its next step is the loader call.
\<close>

lemma late_lookup_reloads:
  assumes "goroutines s i = Some (CallGet key, AtRead m)" and "stale (shared s) key (clock s)"
    and "\<not> crashed s"
  shows "calls (shared (execute [Step i, Step i] s)) = calls (shared s) @ [key]"
proof -
  have a: "advance (clock s) (CallGet key) (AtRead m) (shared s) = (AtLoad m, shared s)"
    using assms(2) by (auto simp: stale_def split: option.splits)
  have "proceed i s = s\<lparr>shared := shared s, goroutines := (goroutines s)(i \<mapsto> (CallGet key, AtLoad m))\<rparr>"
    by (rule proceed_Step [OF assms(1) a])
  then show ?thesis
    using assms(3) by (simp add: proceed_def split: prod.splits sum.splits)
qed

text \<open>
  The run of two \<open>Get(5)\<close> on the cache with TTL 0 in which one unit of time passes
  before the second caller's lookup is not timely.
\<close>

lemma reload_run_not_timely:
  "\<not> timely race_cache 5 (contend @ finish) (spawn race_cache 0 (replicate 2 (CallGet 5)))"
  by (simp add: race_cache_def run_simps counting_loader_def)

subsection \<open>Every call can end\<close>

lemma advance_rank:
  assumes "advance now c pc l = (pc', l')"
  shows "rank pc' < rank pc \<or> (pc' = pc \<and> l' = l)"
  using assms
  by (cases pc)
     (auto simp: mutex_Lock_def split: call.splits option.splits if_splits prod.splits sum.splits)

lemma advance_free:
  assumes "in_registry pc \<or> holds pc \<noteq> None"
  shows "fst (advance now c pc l) \<noteq> pc"
  using assms
  by (cases pc) (auto split: call.splits option.splits if_splits prod.splits sum.splits)

lemma enabled:
  assumes "consistent s" and "goroutines s i = Some (c, pc)" and "0 < rank pc"
  shows "\<exists>j d q. goroutines s j = Some (d, q) \<and> fst (advance (clock s) d q (shared s)) \<noteq> q"
proof -
  have r: "registry_exclusive s" and a: "registry_agrees s" and m: "mutex_exclusive s"
    using assms(1) by (simp_all add: consistent_def)
  consider "in_registry pc \<or> holds pc \<noteq> None" | "pc = AtStart" | n where "pc = AtLock n"
    using assms(3) by (cases pc) auto
  then show ?thesis
  proof cases
    case 1
    then show ?thesis using advance_free assms(2) by blast
  next
    case 2
    show ?thesis
    proof (cases "lockMapLock (shared s)")
      case True
      then obtain j where "j \<in> in_registry_set s" using r by (auto simp: registry_exclusive_def)
      then obtain d q where "goroutines s j = Some (d, q)" "in_registry q"
        by (auto simp: in_registry_set_def)
      then show ?thesis using advance_free by blast
    next
      case False
      then have "fst (advance (clock s) c pc (shared s)) \<noteq> pc" using 2 by simp
      then show ?thesis using assms(2) by blast
    qed
  next
    case 3
    have n: "n < length (mutexes (shared s))"
      using registry_agrees_known [OF a assms(2)] a 3 by (simp add: registry_agrees_def)
    show ?thesis
    proof (cases "mutexes (shared s) ! n")
      case True
      then obtain j where "j \<in> holders s n" using m n by (auto simp: mutex_exclusive_def)
      then obtain d q where "goroutines s j = Some (d, q)" "holds q = Some n"
        by (auto simp: holders_def)
      then show ?thesis using advance_free [of q] by (metis option.distinct(1))
    next
      case False
      then have "fst (advance (clock s) c pc (shared s)) \<noteq> pc"
        using 3 n by (simp add: mutex_Lock_def)
      then show ?thesis using assms(2) by blast
    qed
  qed
qed

lemma remaining_step:
  assumes "population n s" and "goroutines s j = Some (d, q)"
    and "fst (advance (clock s) d q (shared s)) \<noteq> q"
  shows "remaining n (proceed j s) < remaining n s"
proof -
  obtain pc' l' where adv: "advance (clock s) d q (shared s) = (pc', l')" by force
  have lt: "rank pc' < rank q" using advance_rank [OF adv] assms(3) adv by auto
  have j: "j < n" using assms(1,2) by (auto simp: population_def)
  have step: "proceed j s = s\<lparr>shared := l', goroutines := (goroutines s)(j \<mapsto> (d, pc'))\<rparr>"
    by (rule proceed_Step [OF assms(2) adv])
  have "rank_at (proceed j s) i \<le> rank_at s i" for i
    unfolding step using lt assms(2) by (simp add: rank_at_def)
  moreover have "rank_at (proceed j s) j < rank_at s j"
    unfolding step using lt assms(2) by (simp add: rank_at_def)
  ultimately show ?thesis
    unfolding remaining_def using j by (intro sum_strict_mono_ex1) auto
qed

lemma population_perform: "population n s \<Longrightarrow> population n (perform a s)"
  by (cases a) (auto simp: population_def proceed_def split: option.splits prod.splits if_splits)

lemma completes:
  assumes "consistent s" and "population n s" and "\<not> crashed s"
  shows "\<exists>rest. list_all is_step rest \<and> clock (execute rest s) = clock s \<and>
           (\<forall>i c pc. goroutines (execute rest s) i = Some (c, pc) \<longrightarrow> rank pc = 0)"
  using assms
proof (induction "remaining n s" arbitrary: s rule: less_induct)
  case less
  show ?case
  proof (cases "\<exists>i c pc. goroutines s i = Some (c, pc) \<and> 0 < rank pc")
    case False
    then have "list_all is_step [] \<and> clock (execute [] s) = clock s \<and>
        (\<forall>i c pc. goroutines (execute [] s) i = Some (c, pc) \<longrightarrow> rank pc = 0)"
      by auto
    then show ?thesis by blast
  next
    case True
    then obtain i c pc where "goroutines s i = Some (c, pc)" "0 < rank pc" by blast
    from enabled [OF less.prems(1) this]
    obtain j d q where j: "goroutines s j = Some (d, q)"
      "fst (advance (clock s) d q (shared s)) \<noteq> q" by blast
    let ?s = "perform (Step j) s"
    have e: "?s = proceed j s" using less.prems(3) by simp
    have "remaining n ?s < remaining n s" unfolding e by (rule remaining_step [OF less.prems(2) j])
    moreover have "\<not> crashed ?s" unfolding e using less.prems(3) by simp
    ultimately obtain rest where rest: "list_all is_step rest" "clock (execute rest ?s) = clock ?s"
      "\<forall>i c pc. goroutines (execute rest ?s) i = Some (c, pc) \<longrightarrow> rank pc = 0"
      using less.hyps [OF _ consistent_perform [OF less.prems(1)] population_perform [OF less.prems(2)]]
      by blast
    have "list_all is_step (Step j # rest) \<and> clock (execute (Step j # rest) s) = clock s \<and>
        (\<forall>i c pc. goroutines (execute (Step j # rest) s) i = Some (c, pc) \<longrightarrow> rank pc = 0)"
      using rest e by (simp del: perform.simps)
    then show ?thesis by blast
  qed
qed

lemma population_execute: "population n s \<Longrightarrow> population n (execute as s)"
  by (induction as arbitrary: s) (simp_all add: population_perform del: perform.simps)

lemma population_spawn: "population (length cs) (spawn l now cs)"
  by (simp add: population_def)

lemma all_get_execute: "all_get key s \<Longrightarrow> all_get key (execute as s)"
  by (induction as arbitrary: s) (simp_all add: all_get_perform del: perform.simps)

lemma rank_0: "rank pc = 0 \<Longrightarrow> \<exists>r. pc = Finished r"
  by (cases pc) simp_all

lemma all_end:
  assumes "population n s" and "all_get key s"
    and "\<forall>i c pc. goroutines s i = Some (c, pc) \<longrightarrow> rank pc = 0" and "i < n"
  shows "\<exists>r. goroutines s i = Some (CallGet key, Finished r)"
proof -
  have "goroutines s i \<noteq> None" using assms(1,4) unfolding population_def by blast
  then obtain c pc where g: "goroutines s i = Some (c, pc)" by fastforce
  have c: "c = CallGet key" using assms(2) g by (rule all_getD)
  obtain r where "pc = Finished r" using rank_0 assms(3) g by blast
  then show ?thesis using g c by simp
qed

text \<open>
  Claim C1, as the code has it. Let \<open>n\<close> goroutines call \<open>Get\<close> for one key on an idle
  cache where the key has no entry or an expired one, and let the loader return \<open>v\<close> for
  it. A caller that gets the key's mutex after the load looks the key up again and tests
  the stored entry, which expires at the clock reading of the store plus the TTL. Call a
  schedule timely when every such lookup finds the entry not expired at the clock it
  reads. Then, in the state \<open>s\<close> reached under any schedule:
  \<^item> the program has not ended in a fatal error;
  \<^item> if the clock of \<open>s\<close> is at most the TTL after the start, the schedule is timely;
  \<^item> if the schedule is timely, the loader has been invoked at most once, and every call
    that has ended has returned \<open>v\<close>, after exactly one invocation;
  \<^item> the run can be continued, with no time passing, so that all \<open>n\<close> calls end; and if
    the schedule is timely, the TTL is not negative, and the key's entry in \<open>s\<close> is the
    one of the start or is not expired at the clock of \<open>s\<close>, then the continued schedule
    is timely, every call has returned \<open>v\<close>, and the loader has been invoked exactly once.
\<close>

theorem Get_single_load_while_fresh:
  assumes "idle l" and "stale l key now" and "loadingFunc l key (world l) = (Inr v, w)"
    and "s0 = spawn l now (replicate n (CallGet key))" and "s = execute schedule s0"
  shows "\<not> crashed s \<and>
         (clock s \<le> now + cacheDuration l \<longrightarrow> timely l key schedule s0) \<and>
         (timely l key schedule s0 \<longrightarrow>
            (calls (shared s) = calls l \<or> calls (shared s) = calls l @ [key]) \<and>
            (\<forall>i c r. goroutines s i = Some (c, Finished r) \<longrightarrow>
               r = Returned v \<and> calls (shared s) = calls l @ [key])) \<and>
         (\<exists>rest. clock (execute rest s) = clock s \<and>
            (\<forall>i<n. \<exists>r. goroutines (execute rest s) i = Some (CallGet key, Finished r)) \<and>
            (timely l key schedule s0 \<and> 0 \<le> cacheDuration l \<and>
             (dataMap (shared s) key = dataMap l key \<or> \<not> stale (shared s) key (clock s)) \<longrightarrow>
               timely l key (schedule @ rest) s0 \<and>
               (\<forall>i<n. goroutines (execute rest s) i =
                  Some (CallGet key, Finished (Returned v))) \<and>
               (0 < n \<longrightarrow> calls (shared (execute rest s)) = calls l @ [key])))"
proof -
  have sf0: "single_flight l key v w now s0"
    unfolding assms(4) by (rule single_flight_spawn [OF assms(1)])
  then have c0: "consistent s0" and g0: "all_get key s0" and x0: "\<not> crashed s0"
    by (simp_all add: single_flight_def)
  have pop: "population n (execute as s0)" for as
    using population_execute [OF population_spawn, of "replicate n (CallGet key)" as l now]
    by (simp add: assms(4))
  have cs: "consistent s" unfolding assms(5) by (rule consistent_execute [OF c0])
  have gs: "all_get key s" unfolding assms(5) by (rule all_get_execute [OF g0])
  have 1: "\<not> crashed s"
    unfolding assms(5) by (rule safe_execute [OF c0 all_get_one_key [OF g0] x0])
  have 2: "timely l key schedule s0" if "clock s \<le> now + cacheDuration l"
    using within_ttl_timely [OF assms(2,3) sf0] that by (simp add: assms(5))
  have sf: "single_flight l key v w now s" if "timely l key schedule s0"
    unfolding assms(5) by (rule single_flight_execute [OF assms(2,3) sf0 that])
  have 3: "(calls (shared s) = calls l \<or> calls (shared s) = calls l @ [key]) \<and>
      (\<forall>i c r. goroutines s i = Some (c, Finished r) \<longrightarrow>
         r = Returned v \<and> calls (shared s) = calls l @ [key])"
    if "timely l key schedule s0"
    by (rule single_flight_result [OF sf [OF that]])
  obtain rest where rest: "list_all is_step rest" "clock (execute rest s) = clock s"
    "\<forall>i c pc. goroutines (execute rest s) i = Some (c, pc) \<longrightarrow> rank pc = 0"
    using completes [OF cs pop [of schedule, folded assms(5)] 1] by blast
  let ?t = "execute rest s"
  have pt: "population n ?t" using pop [of "schedule @ rest"] by (simp add: assms(5) execute_append)
  have ends: "\<exists>r. goroutines ?t i = Some (CallGet key, Finished r)" if "i < n" for i
    by (rule all_end [OF pt all_get_execute [OF gs] rest(3) that])
  have 4: "timely l key (schedule @ rest) s0 \<and>
      (\<forall>i<n. goroutines ?t i = Some (CallGet key, Finished (Returned v))) \<and>
      (0 < n \<longrightarrow> calls (shared ?t) = calls l @ [key])"
    if tm: "timely l key schedule s0" and d: "0 \<le> cacheDuration l"
      and e: "dataMap (shared s) key = dataMap l key \<or> \<not> stale (shared s) key (clock s)"
  proof -
    note sfs = sf [OF tm]
    have ph: "not_loaded l key s \<or> loading l key v w s \<or> loaded l key v w (clock s) s"
    proof -
      consider "not_loaded l key s" | "loading l key v w s"
        | "loaded l key v w (now + cacheDuration l) s"
        using sfs by (auto simp: single_flight_def)
      then show ?thesis
      proof cases
        case 3
        have "\<not> stale (shared s) key (clock s)"
        proof
          assume st: "stale (shared s) key (clock s)"
          then have "dataMap (shared s) key = dataMap l key" using e by simp
          then have "\<not> stale l key now"
            using 3 d unfolding loaded_def by (auto simp: stale_def Expired_def)
          then show False using assms(2) by simp
        qed
        then show ?thesis using loaded_rebound [OF 3] by blast
      qed simp_all
    qed
    have tr: "timely l key rest s" by (rule fresh_timely [OF assms(2,3) d sfs ph rest(1)])
    then have ta: "timely l key (schedule @ rest) s0"
      using tm by (simp add: timely_append assms(5))
    have "single_flight l key v w now ?t" by (rule single_flight_execute [OF assms(2,3) sfs tr])
    note res = single_flight_result [OF this]
    have "goroutines ?t i = Some (CallGet key, Finished (Returned v)) \<and>
        calls (shared ?t) = calls l @ [key]" if "i < n" for i
      using ends [OF that] res by auto
    then show ?thesis using ta by blast
  qed
  have "clock ?t = clock s \<and>
      (\<forall>i<n. \<exists>r. goroutines ?t i = Some (CallGet key, Finished r)) \<and>
      (timely l key schedule s0 \<and> 0 \<le> cacheDuration l \<and>
       (dataMap (shared s) key = dataMap l key \<or> \<not> stale (shared s) key (clock s)) \<longrightarrow>
         timely l key (schedule @ rest) s0 \<and>
         (\<forall>i<n. goroutines ?t i = Some (CallGet key, Finished (Returned v))) \<and>
         (0 < n \<longrightarrow> calls (shared ?t) = calls l @ [key]))"
    using rest(2) ends 4 by blast
  then show ?thesis using 1 2 3 by blast
qed

text \<open>
  Claim C1 as amended, at the scenario's cache (TTL 100): two concurrent \<open>Get(5)\<close>, the
  second blocked on the key's mutex while the first loads. The load takes 500 units of
  time, so the entry is stored at 500, expiring at 600, and the second caller looks the
  key up at 500, after the TTL has passed since the start: the schedule is timely, there
  is one invocation, and both return 10.
\<close>

theorem Get_single_load_while_fresh_witness:
  "idle demo \<and> stale demo 5 0 \<and>
   timely demo 5 (contend @ slow_load) (spawn demo 0 (replicate 2 (CallGet 5))) \<and>
   clock (execute (contend @ slow_load) (spawn demo 0 (replicate 2 (CallGet 5)))) = 500 \<and>
   dataMap (shared (execute (contend @ slow_load) (spawn demo 0 (replicate 2 (CallGet 5))))) 5 =
     Some \<lparr>Value = 10, Expiration = 600\<rparr> \<and>
   \<not> crashed (execute (contend @ slow_load) (spawn demo 0 (replicate 2 (CallGet 5)))) \<and>
   calls (shared (execute (contend @ slow_load) (spawn demo 0 (replicate 2 (CallGet 5))))) = [5] \<and>
   goroutines (execute (contend @ slow_load) (spawn demo 0 (replicate 2 (CallGet 5)))) 0 =
     Some (CallGet 5, Finished (Returned 10)) \<and>
   goroutines (execute (contend @ slow_load) (spawn demo 0 (replicate 2 (CallGet 5)))) 1 =
     Some (CallGet 5, Finished (Returned 10))"
proof -
  let ?init = "spawn demo 0 (replicate 2 (CallGet 5))"
  let ?final = "execute (contend @ slow_load) ?init"
  have st: "stale demo 5 0" by (simp add: stale_def demo_def)
  have f: "loadingFunc demo 5 (world demo) = (Inr 10, 1)"
    by (simp add: demo_def double_loader_def)
  have t: "timely demo 5 (contend @ slow_load) ?init"
    by (simp add: demo_def run_simps double_loader_def)
  have g: "clock ?final = 500" "dataMap (shared ?final) 5 = Some \<lparr>Value = 10, Expiration = 600\<rparr>"
    "goroutines ?final 0 = Some (CallGet 5, Finished (Returned 10))"
    "goroutines ?final 1 = Some (CallGet 5, Finished (Returned 10))"
    by (simp_all add: demo_def run_simps double_loader_def)
  have "\<not> crashed ?final \<and> calls (shared ?final) = calls demo @ [5]"
    using Get_single_load_while_fresh [OF idle_demo(1) st f refl refl,
        where n = 2 and schedule = "contend @ slow_load"]
      t g(3)
    by blast
  then show ?thesis using idle_demo(1) st t g by (simp add: demo_def)
qed

text \<open>
  Claim C1 as stated fails. Two goroutines call \<open>Get(5)\<close> on a cache with TTL 0 where
  key 5 has no entry. Goroutine 0 holds the key's mutex and goroutine 1 is blocked on it;
  goroutine 0 loads, stores and returns 10; the clock advances by one; goroutine 1 gets
  the mutex, finds the entry expired, and invokes the loader a second time, returning 11.
\<close>

theorem Get_concurrent_reload_counterexample:
  "idle race_cache \<and> stale race_cache 5 0 \<and> cacheDuration race_cache = 0 \<and>
   goroutines (execute contend (spawn race_cache 0 (replicate 2 (CallGet 5)))) 0 =
     Some (CallGet 5, AtRead 0) \<and>
   goroutines (execute contend (spawn race_cache 0 (replicate 2 (CallGet 5)))) 1 =
     Some (CallGet 5, AtLock 0) \<and>
   calls (shared (execute (contend @ finish) (spawn race_cache 0 (replicate 2 (CallGet 5))))) =
     [5, 5] \<and>
   goroutines (execute (contend @ finish) (spawn race_cache 0 (replicate 2 (CallGet 5)))) 0 =
     Some (CallGet 5, Finished (Returned 10)) \<and>
   goroutines (execute (contend @ finish) (spawn race_cache 0 (replicate 2 (CallGet 5)))) 1 =
     Some (CallGet 5, Finished (Returned 11))"
  by (simp add: race_cache_def idle_NewLoadingCache stale_def)
     (simp add: run_simps counting_loader_def)

end
